theory Spec2Isabelle
  imports Main "HOL-Library.Word" "HOL-Library.AList"
begin

section \<open>JavaScript strings\<close>

text \<open>
  A JavaScript string is a sequence of 16-bit code units. Literals of the source are
  written with \<open>js\<close>, which reads an ASCII literal as its code units.
\<close>

type_synonym code_unit = "16 word"
type_synonym jsstring = "code_unit list"

definition js :: "string \<Rightarrow> jsstring" where
  "js s = map of_char s"

definition LF :: code_unit where "LF = 0x0A"
definition LBRACE :: code_unit where "LBRACE = 0x7B"
definition RBRACE :: code_unit where "RBRACE = 0x7D"

text \<open>
  \<open>String.prototype.trim\<close> removes WhiteSpace and LineTerminator code points from both
  ends: TAB, LF, VT, FF, CR, SP, NBSP, the Unicode space separators, LS, PS and the byte
  order mark. All of them are single code units.
\<close>

definition is_ws :: "code_unit \<Rightarrow> bool" where
  "is_ws c \<longleftrightarrow>
     c = 0x09 \<or> c = 0x0A \<or> c = 0x0B \<or> c = 0x0C \<or> c = 0x0D \<or> c = 0x20 \<or> c = 0xA0 \<or>
     c = 0x1680 \<or> (0x2000 \<le> c \<and> c \<le> 0x200A) \<or> c = 0x2028 \<or> c = 0x2029 \<or>
     c = 0x202F \<or> c = 0x205F \<or> c = 0x3000 \<or> c = 0xFEFF"

definition trim :: "jsstring \<Rightarrow> jsstring" where
  "trim s = rev (dropWhile is_ws (rev (dropWhile is_ws s)))"

text \<open>
  \<open>indexOf\<close> and \<open>lastIndexOf\<close> with a one-character search string: the index of
  the first (last) occurrence, or \<open>-1\<close>.
\<close>

fun indexOf :: "jsstring \<Rightarrow> code_unit \<Rightarrow> int" where
  "indexOf [] c = - 1"
| "indexOf (x # xs) c =
     (if x = c then 0 else (let i = indexOf xs c in if i = - 1 then - 1 else i + 1))"

fun lastIndexOf :: "jsstring \<Rightarrow> code_unit \<Rightarrow> int" where
  "lastIndexOf [] c = - 1"
| "lastIndexOf (x # xs) c =
     (let i = lastIndexOf xs c in
      if i \<noteq> - 1 then i + 1 else if x = c then 0 else - 1)"

text \<open>
  \<open>slice(start, stop)\<close>: a negative index counts from the end, and both indices are
  clamped to the string.
\<close>

definition slice_js :: "jsstring \<Rightarrow> int \<Rightarrow> int \<Rightarrow> jsstring" where
  "slice_js s start stop =
     (let len = int (length s);
          from = (if start < 0 then max (len + start) 0 else min start len);
          to = (if stop < 0 then max (len + stop) 0 else min stop len)
      in take (nat (to - from)) (drop (nat from) s))"

section \<open>The two regular expressions of extractJson\<close>

text \<open>
  Both patterns have the shape \<open>opener([\s\S]*?)closer\<close> with literal opener and
  closer. The functions below follow the backtracking matcher: \<open>regex_capture\<close> tries
  each start position from the left; at a position the opener is matched literally, then
  the lazy group is extended one code unit at a time until the closer matches.

  Under the \<open>i\<close> flag (without \<open>u\<close>) two code units match when their canonical
  forms agree. The canonical form is the upper-case mapping, except that a code unit
  at or above 128 is never mapped below 128. The patterns here are ASCII, so only the
  ASCII part of the mapping can decide a comparison, and \<open>canonicalize\<close> maps that part.
\<close>

definition canonicalize :: "code_unit \<Rightarrow> code_unit" where
  "canonicalize c = (if 0x61 \<le> c \<and> c \<le> 0x7A then c - 0x20 else c)"

definition same_unit :: "bool \<Rightarrow> code_unit \<Rightarrow> code_unit \<Rightarrow> bool" where
  "same_unit ignore_case p c =
     (if ignore_case then canonicalize p = canonicalize c else p = c)"

fun match_literal :: "bool \<Rightarrow> jsstring \<Rightarrow> jsstring \<Rightarrow> jsstring option" where
  "match_literal ic [] cs = Some cs"
| "match_literal ic (p # ps) [] = None"
| "match_literal ic (p # ps) (c # cs) =
     (if same_unit ic p c then match_literal ic ps cs else None)"

fun match_lazy :: "bool \<Rightarrow> jsstring \<Rightarrow> jsstring \<Rightarrow> jsstring option" where
  "match_lazy ic closer [] =
     (case match_literal ic closer [] of Some _ \<Rightarrow> Some [] | None \<Rightarrow> None)"
| "match_lazy ic closer (c # cs) =
     (case match_literal ic closer (c # cs) of
        Some _ \<Rightarrow> Some []
      | None \<Rightarrow> map_option ((#) c) (match_lazy ic closer cs))"

definition match_at :: "bool \<Rightarrow> jsstring \<Rightarrow> jsstring \<Rightarrow> jsstring \<Rightarrow> jsstring option" where
  "match_at ic opener closer cs =
     (case match_literal ic opener cs of
        None \<Rightarrow> None
      | Some rest \<Rightarrow> match_lazy ic closer rest)"

fun regex_capture :: "bool \<Rightarrow> jsstring \<Rightarrow> jsstring \<Rightarrow> jsstring \<Rightarrow> jsstring option" where
  "regex_capture ic opener closer [] = match_at ic opener closer []"
| "regex_capture ic opener closer (c # cs) =
     (case match_at ic opener closer (c # cs) of
        Some g \<Rightarrow> Some g
      | None \<Rightarrow> regex_capture ic opener closer cs)"

definition fence :: jsstring where
  "fence = js ''```''"

definition json_fence :: jsstring where
  "json_fence = js ''```json''"

section \<open>extractJson\<close>

text \<open>
  The argument is \<open>None\<close> for \<open>null\<close> or \<open>undefined\<close>; the result is \<open>None\<close> for
  \<open>null\<close>. The empty string is falsy, as the absent text is.
\<close>

definition extractJson :: "jsstring option \<Rightarrow> jsstring option" where
  "extractJson text =
     (case text of
        None \<Rightarrow> None
      | Some t \<Rightarrow>
          if t = [] then None
          else
            (case regex_capture True json_fence fence t of
               Some fenced \<Rightarrow> Some (trim fenced)
             | None \<Rightarrow>
                 (case regex_capture False fence fence t of
                    Some genericFenced \<Rightarrow> Some (trim genericFenced)
                  | None \<Rightarrow>
                      (let start = indexOf t LBRACE;
                           stop = lastIndexOf t RBRACE
                       in if start \<noteq> - 1 \<and> stop \<noteq> - 1 \<and> stop > start
                          then Some (trim (slice_js t start (stop + 1)))
                          else None))))"

section \<open>JSON values\<close>

text \<open>
  The values \<open>JSON.parse\<close> produces. An object is the list of its own properties, one
  entry per key. The number type \<open>'n\<close> stands for the IEEE doubles with \<open>-0\<close> read as
  \<open>0\<close>: the program only tests numbers for truthiness and prints them, and \<open>-0\<close> is
  falsy and prints as \<open>0\<close>. Conversions between numbers and text are the platform's and
  stay parameters, as does \<open>JSON.stringify\<close>.
\<close>

datatype 'n json =
    JNull
  | JBool bool
  | JNum 'n
  | JStr jsstring
  | JArr "'n json list"
  | JObj "(jsstring \<times> 'n json) list"

datatype js_error = TypeError | SyntaxError

record 'n platform =
  Number_toString :: "'n \<Rightarrow> jsstring"
  StringToNumber :: "jsstring \<Rightarrow> 'n"
  JSON_stringify :: "'n json \<Rightarrow> jsstring"

text \<open>
  A property read \<open>v.k\<close> yields \<open>None\<close> for \<open>undefined\<close>. None of the names this
  program reads (\<open>name\<close>, \<open>uses\<close>, \<open>sideEffects\<close>, \<open>note\<close>, \<open>condition\<close>,
  \<open>description\<close>, \<open>severity\<close>, \<open>effects\<close>, \<open>query\<close>) is defined on a prototype, so
  only an object's own properties answer; reading a property of \<open>null\<close> throws.
\<close>

definition own_prop :: "'n json \<Rightarrow> jsstring \<Rightarrow> 'n json option" where
  "own_prop v k = (case v of JObj kvs \<Rightarrow> map_of kvs k | _ \<Rightarrow> None)"

definition get_prop :: "'n json \<Rightarrow> jsstring \<Rightarrow> js_error + 'n json option" where
  "get_prop v k = (case v of JNull \<Rightarrow> Inl TypeError | _ \<Rightarrow> Inr (own_prop v k))"

definition ToBoolean :: "('n::zero) json option \<Rightarrow> bool" where
  "ToBoolean v =
     (case v of
        None \<Rightarrow> False
      | Some JNull \<Rightarrow> False
      | Some (JBool b) \<Rightarrow> b
      | Some (JNum n) \<Rightarrow> n \<noteq> 0
      | Some (JStr s) \<Rightarrow> s \<noteq> []
      | Some (JArr xs) \<Rightarrow> True
      | Some (JObj kvs) \<Rightarrow> True)"

fun join :: "jsstring \<Rightarrow> jsstring list \<Rightarrow> jsstring" where
  "join sep [] = []"
| "join sep [x] = x"
| "join sep (x # y # ys) = x @ sep @ join sep (y # ys)"

text \<open>Sequencing of steps that may throw.\<close>

definition and_then :: "'e + 'a \<Rightarrow> ('a \<Rightarrow> 'e + 'b) \<Rightarrow> 'e + 'b" where
  "and_then r f = (case r of Inl e \<Rightarrow> Inl e | Inr x \<Rightarrow> f x)"

fun collect :: "('e + 'a) list \<Rightarrow> 'e + 'a list" where
  "collect [] = Inr []"
| "collect (r # rs) =
     (case r of
        Inl e \<Rightarrow> Inl e
      | Inr x \<Rightarrow> (case collect rs of Inl e \<Rightarrow> Inl e | Inr xs \<Rightarrow> Inr (x # xs)))"

text \<open>
  \<open>ToString\<close>, as a template literal and \<open>Array.prototype.join\<close> apply it. An array
  prints its elements joined by commas, \<open>null\<close> elements as the empty string. An
  object is converted by its \<open>toString\<close> method, then by \<open>valueOf\<close>: the inherited
  \<open>toString\<close> gives \<open>[object Object]\<close>; an own property \<open>toString\<close> of a parsed object
  is never callable and hides the inherited method, \<open>valueOf\<close> returns no primitive, and
  the conversion throws.
\<close>

fun ToString :: "'n platform \<Rightarrow> 'n json \<Rightarrow> js_error + jsstring" where
  "ToString P JNull = Inr (js ''null'')"
| "ToString P (JBool b) = Inr (if b then js ''true'' else js ''false'')"
| "ToString P (JNum n) = Inr (Number_toString P n)"
| "ToString P (JStr s) = Inr s"
| "ToString P (JArr xs) =
     (case collect (map (\<lambda>x. case x of JNull \<Rightarrow> Inr [] | _ \<Rightarrow> ToString P x) xs) of
        Inl e \<Rightarrow> Inl e
      | Inr parts \<Rightarrow> Inr (join (js '','') parts))"
| "ToString P (JObj kvs) =
     (case map_of kvs (js ''toString'') of
        Some m \<Rightarrow> Inl TypeError
      | None \<Rightarrow> Inr (js ''[object Object]''))"

definition ToString_opt :: "'n platform \<Rightarrow> 'n json option \<Rightarrow> js_error + jsstring" where
  "ToString_opt P v = (case v of None \<Rightarrow> Inr (js ''undefined'') | Some x \<Rightarrow> ToString P x)"

text \<open>\<open>v || d\<close> inside a template literal, for a string \<open>d\<close>.\<close>

definition or_default ::
  "('n::zero) platform \<Rightarrow> 'n json option \<Rightarrow> jsstring \<Rightarrow> js_error + jsstring" where
  "or_default P v d = (if ToBoolean v then ToString_opt P v else Inr d)"

section \<open>JSON.parse\<close>

text \<open>
  The JSON grammar of ECMA-404, which \<open>JSON.parse\<close> accepts: white space is space, tab,
  line feed and carriage return; a string holds any code unit from 0x20 on except the
  quote and the backslash, or an escape; a number is
  \<open>-?(0|[1-9][0-9]*)(.[0-9]+)?([eE][+-]?[0-9]+)?\<close>. A failure is the \<open>SyntaxError\<close>
  of the platform.
  The recursion of values is bounded by fuel; \<open>JSON_parse\<close> supplies more fuel than the
  text has code units, which is enough (\<open>JSON_parse_fuel\<close> below). The nesting limit
  of an engine is not modelled.
\<close>

definition is_json_ws :: "code_unit \<Rightarrow> bool" where
  "is_json_ws c \<longleftrightarrow> c = 0x20 \<or> c = 0x09 \<or> c = 0x0A \<or> c = 0x0D"

definition skip_ws :: "jsstring \<Rightarrow> jsstring" where
  "skip_ws cs = dropWhile is_json_ws cs"

definition is_digit :: "code_unit \<Rightarrow> bool" where
  "is_digit c \<longleftrightarrow> 0x30 \<le> c \<and> c \<le> 0x39"

definition hex_digit :: "code_unit \<Rightarrow> code_unit option" where
  "hex_digit c =
     (if 0x30 \<le> c \<and> c \<le> 0x39 then Some (c - 0x30)
      else if 0x61 \<le> c \<and> c \<le> 0x66 then Some (c - 0x61 + 10)
      else if 0x41 \<le> c \<and> c \<le> 0x46 then Some (c - 0x41 + 10)
      else None)"

definition hex4 :: "code_unit \<Rightarrow> code_unit \<Rightarrow> code_unit \<Rightarrow> code_unit \<Rightarrow> code_unit option" where
  "hex4 a b c d =
     (case (hex_digit a, hex_digit b, hex_digit c, hex_digit d) of
        (Some h1, Some h2, Some h3, Some h4) \<Rightarrow>
          Some (h1 * 0x1000 + h2 * 0x100 + h3 * 0x10 + h4)
      | _ \<Rightarrow> None)"

definition escape :: "code_unit \<Rightarrow> code_unit option" where
  "escape e =
     (if e = 0x22 then Some 0x22
      else if e = 0x5C then Some 0x5C
      else if e = 0x2F then Some 0x2F
      else if e = 0x62 then Some 0x08
      else if e = 0x66 then Some 0x0C
      else if e = 0x6E then Some 0x0A
      else if e = 0x72 then Some 0x0D
      else if e = 0x74 then Some 0x09
      else None)"

text \<open>The characters of a string after its opening quote, up to the closing quote.\<close>

fun parse_string :: "jsstring \<Rightarrow> (jsstring \<times> jsstring) option" where
  "parse_string [] = None"
| "parse_string (c # cs) =
     (if c = 0x22 then Some ([], cs)
      else if c = 0x5C then
        (case cs of
           [] \<Rightarrow> None
         | e # cs1 \<Rightarrow>
             if e = 0x75 then
               (case cs1 of
                  h1 # h2 # h3 # h4 # cs2 \<Rightarrow>
                    (case hex4 h1 h2 h3 h4 of
                       None \<Rightarrow> None
                     | Some u \<Rightarrow> map_option (map_prod ((#) u) id) (parse_string cs2))
                | _ \<Rightarrow> None)
             else
               (case escape e of
                  None \<Rightarrow> None
                | Some u \<Rightarrow> map_option (map_prod ((#) u) id) (parse_string cs1)))
      else if c < 0x20 then None
      else map_option (map_prod ((#) c) id) (parse_string cs))"

text \<open>A number token and the text after it.\<close>

definition scan_digits :: "jsstring \<Rightarrow> (jsstring \<times> jsstring) option" where
  "scan_digits cs =
     (if takeWhile is_digit cs = [] then None
      else Some (takeWhile is_digit cs, dropWhile is_digit cs))"

definition scan_int :: "jsstring \<Rightarrow> (jsstring \<times> jsstring) option" where
  "scan_int cs =
     (case scan_digits cs of
        None \<Rightarrow> None
      | Some (ds, rest) \<Rightarrow> if hd ds = 0x30 \<and> length ds > 1 then None else Some (ds, rest))"

definition scan_frac :: "jsstring \<Rightarrow> (jsstring \<times> jsstring) option" where
  "scan_frac cs =
     (case cs of
        c # cs1 \<Rightarrow>
          if c = 0x2E then map_option (map_prod ((#) c) id) (scan_digits cs1)
          else Some ([], cs)
      | [] \<Rightarrow> Some ([], cs))"

definition scan_sign :: "jsstring \<Rightarrow> jsstring \<times> jsstring" where
  "scan_sign cs =
     (case cs of
        c # cs1 \<Rightarrow> if c = 0x2B \<or> c = 0x2D then ([c], cs1) else ([], cs)
      | [] \<Rightarrow> ([], cs))"

definition scan_exp :: "jsstring \<Rightarrow> (jsstring \<times> jsstring) option" where
  "scan_exp cs =
     (case cs of
        c # cs1 \<Rightarrow>
          if c = 0x65 \<or> c = 0x45 then
            (case scan_sign cs1 of
               (sg, cs2) \<Rightarrow> map_option (map_prod (\<lambda>ds. c # sg @ ds) id) (scan_digits cs2))
          else Some ([], cs)
      | [] \<Rightarrow> Some ([], cs))"

definition scan_number :: "jsstring \<Rightarrow> (jsstring \<times> jsstring) option" where
  "scan_number cs =
     (case (case cs of c # cs1 \<Rightarrow> if c = 0x2D then ([c], cs1) else ([], cs) | [] \<Rightarrow> ([], cs)) of
        (neg, cs1) \<Rightarrow>
          (case scan_int cs1 of
             None \<Rightarrow> None
           | Some (ds, cs2) \<Rightarrow>
               (case scan_frac cs2 of
                  None \<Rightarrow> None
                | Some (fr, cs3) \<Rightarrow>
                    (case scan_exp cs3 of
                       None \<Rightarrow> None
                     | Some (ex, cs4) \<Rightarrow> Some (neg @ ds @ fr @ ex, cs4)))))"

text \<open>
  The members of an object are listed as the engine enumerates its own properties: the
  array indices (the canonical decimal strings of the integers below \<open>2^32 - 1\<close>) in
  ascending order, then the other keys in the order they were created. A repeated key
  keeps its position and takes the last value.
\<close>

definition index_value :: "jsstring \<Rightarrow> nat" where
  "index_value k = foldl (\<lambda>n c. 10 * n + unat (c - 0x30)) 0 k"

definition array_index :: "jsstring \<Rightarrow> nat option" where
  "array_index k =
     (if k \<noteq> [] \<and> list_all is_digit k \<and> (length k = 1 \<or> hd k \<noteq> 0x30) \<and>
         index_value k < 4294967295
      then Some (index_value k) else None)"

definition key_before :: "jsstring \<Rightarrow> jsstring \<Rightarrow> bool" where
  "key_before k k' =
     (case array_index k of
        None \<Rightarrow> False
      | Some i \<Rightarrow> (case array_index k' of None \<Rightarrow> True | Some j \<Rightarrow> i < j))"

fun insert_key :: "jsstring \<Rightarrow> 'a \<Rightarrow> (jsstring \<times> 'a) list \<Rightarrow> (jsstring \<times> 'a) list" where
  "insert_key k v [] = [(k, v)]"
| "insert_key k v (kv # kvs) =
     (if key_before k (fst kv) then (k, v) # kv # kvs else kv # insert_key k v kvs)"

definition define_property ::
  "jsstring \<Rightarrow> 'a \<Rightarrow> (jsstring \<times> 'a) list \<Rightarrow> (jsstring \<times> 'a) list" where
  "define_property k v kvs =
     (case map_of kvs k of
        Some old \<Rightarrow> AList.update k v kvs
      | None \<Rightarrow> insert_key k v kvs)"

definition literal :: "jsstring \<Rightarrow> 'n json \<Rightarrow> jsstring \<Rightarrow> ('n json \<times> jsstring) option" where
  "literal word v cs = map_option (Pair v) (match_literal False word cs)"

fun parse_value :: "'n platform \<Rightarrow> nat \<Rightarrow> jsstring \<Rightarrow> ('n json \<times> jsstring) option"
  and parse_elements ::
    "'n platform \<Rightarrow> nat \<Rightarrow> 'n json list \<Rightarrow> jsstring \<Rightarrow> ('n json \<times> jsstring) option"
  and parse_members ::
    "'n platform \<Rightarrow> nat \<Rightarrow> (jsstring \<times> 'n json) list \<Rightarrow> jsstring \<Rightarrow>
       ('n json \<times> jsstring) option"
  where
  "parse_value P 0 cs = None"
| "parse_value P (Suc fuel) cs =
     (case skip_ws cs of
        [] \<Rightarrow> None
      | c # cs1 \<Rightarrow>
          if c = 0x7B then
            (case skip_ws cs1 of
               [] \<Rightarrow> None
             | d # cs2 \<Rightarrow>
                 if d = 0x7D then Some (JObj [], cs2) else parse_members P fuel [] (d # cs2))
          else if c = 0x5B then
            (case skip_ws cs1 of
               [] \<Rightarrow> None
             | d # cs2 \<Rightarrow>
                 if d = 0x5D then Some (JArr [], cs2) else parse_elements P fuel [] (d # cs2))
          else if c = 0x22 then map_option (map_prod JStr id) (parse_string cs1)
          else if c = 0x74 then literal (js ''true'') (JBool True) (c # cs1)
          else if c = 0x66 then literal (js ''false'') (JBool False) (c # cs1)
          else if c = 0x6E then literal (js ''null'') JNull (c # cs1)
          else map_option (map_prod (\<lambda>tok. JNum (StringToNumber P tok)) id)
                 (scan_number (c # cs1)))"
| "parse_elements P 0 acc cs = None"
| "parse_elements P (Suc fuel) acc cs =
     (case parse_value P fuel cs of
        None \<Rightarrow> None
      | Some (v, cs1) \<Rightarrow>
          (case skip_ws cs1 of
             [] \<Rightarrow> None
           | d # cs2 \<Rightarrow>
               if d = 0x2C then parse_elements P fuel (acc @ [v]) cs2
               else if d = 0x5D then Some (JArr (acc @ [v]), cs2)
               else None))"
| "parse_members P 0 acc cs = None"
| "parse_members P (Suc fuel) acc cs =
     (case skip_ws cs of
        [] \<Rightarrow> None
      | q # cs1 \<Rightarrow>
          if q \<noteq> 0x22 then None
          else
            (case parse_string cs1 of
               None \<Rightarrow> None
             | Some (k, cs2) \<Rightarrow>
                 (case skip_ws cs2 of
                    [] \<Rightarrow> None
                  | colon # cs3 \<Rightarrow>
                      if colon \<noteq> 0x3A then None
                      else
                        (case parse_value P fuel cs3 of
                           None \<Rightarrow> None
                         | Some (v, cs4) \<Rightarrow>
                             (case skip_ws cs4 of
                                [] \<Rightarrow> None
                              | d # cs5 \<Rightarrow>
                                  if d = 0x2C then
                                    parse_members P fuel (define_property k v acc) cs5
                                  else if d = 0x7D then
                                    Some (JObj (define_property k v acc), cs5)
                                  else None)))))"

definition JSON_parse :: "'n platform \<Rightarrow> jsstring \<Rightarrow> js_error + 'n json" where
  "JSON_parse P text =
     (case parse_value P (Suc (length text)) text of
        None \<Rightarrow> Inl SyntaxError
      | Some (v, rest) \<Rightarrow> if skip_ws rest = [] then Inr v else Inl SyntaxError)"

section \<open>formatMedicineData\<close>

text \<open>
  The message is threaded through the loops as the source appends to it. The loop over
  \<open>uses\<close> reads properties only of entries it has tested to be non-null objects; the
  loop over \<open>sideEffects\<close> reads \<open>severity\<close> of every entry that is not a string.
\<close>

definition use_line :: "('n::zero) platform \<Rightarrow> 'n json \<Rightarrow> js_error + jsstring" where
  "use_line P u =
     and_then
       (collect (map (ToString_opt P)
          (filter ToBoolean [own_prop u (js ''condition''), own_prop u (js ''description'')])))
       (\<lambda>parts.
          let line = join (js '': '') parts
          in Inr (js ''- '' @ (if line \<noteq> [] then line else JSON_stringify P u) @ [LF]))"

fun uses_loop ::
  "('n::zero) platform \<Rightarrow> 'n json list \<Rightarrow> jsstring \<Rightarrow> js_error + jsstring" where
  "uses_loop P [] message = Inr message"
| "uses_loop P (u # us) message =
     (case u of
        JStr s \<Rightarrow> uses_loop P us (message @ js ''- '' @ s @ [LF])
      | JArr xs \<Rightarrow>
          (case use_line P u of
             Inl e \<Rightarrow> Inl e
           | Inr l \<Rightarrow> uses_loop P us (message @ l))
      | JObj kvs \<Rightarrow>
          (case use_line P u of
             Inl e \<Rightarrow> Inl e
           | Inr l \<Rightarrow> uses_loop P us (message @ l))
      | _ \<Rightarrow> uses_loop P us message)"

fun effects_loop :: "'n platform \<Rightarrow> 'n json list \<Rightarrow> jsstring \<Rightarrow> js_error + jsstring" where
  "effects_loop P [] message = Inr message"
| "effects_loop P (effect # es) message =
     (case ToString P effect of
        Inl e \<Rightarrow> Inl e
      | Inr s \<Rightarrow> effects_loop P es (message @ js ''  - '' @ s @ [LF]))"

definition effects_lines ::
  "'n platform \<Rightarrow> 'n json \<Rightarrow> jsstring \<Rightarrow> js_error + jsstring" where
  "effects_lines P grp message =
     (case own_prop grp (js ''effects'') of
        Some (JArr effects) \<Rightarrow> effects_loop P effects message
      | _ \<Rightarrow> Inr message)"

fun sideEffects_loop ::
  "('n::zero) platform \<Rightarrow> 'n json list \<Rightarrow> jsstring \<Rightarrow> js_error + jsstring" where
  "sideEffects_loop P [] message = Inr message"
| "sideEffects_loop P (grp # gs) message =
     (case grp of
        JStr s \<Rightarrow> sideEffects_loop P gs (message @ js ''- '' @ s @ [LF, LF])
      | _ \<Rightarrow>
          (case and_then (get_prop grp (js ''severity''))
                  (\<lambda>severity.
                     and_then (or_default P severity (js ''Severity not specified''))
                       (\<lambda>sev. effects_lines P grp (message @ js ''- '' @ sev @ js '':'' @ [LF]))) of
             Inl e \<Rightarrow> Inl e
           | Inr message1 \<Rightarrow> sideEffects_loop P gs (message1 @ [LF])))"

text \<open>The three sections after the first line, each appending to the message.\<close>

definition uses_section ::
  "('n::zero) platform \<Rightarrow> 'n json \<Rightarrow> jsstring \<Rightarrow> js_error + jsstring" where
  "uses_section P data message =
     (case own_prop data (js ''uses'') of
        Some (JArr uses) \<Rightarrow>
          if uses \<noteq> []
          then and_then (uses_loop P uses (message @ js ''Uses:'' @ [LF])) (\<lambda>m. Inr (m @ [LF]))
          else Inr message
      | _ \<Rightarrow> Inr message)"

definition sideEffects_section ::
  "('n::zero) platform \<Rightarrow> 'n json \<Rightarrow> jsstring \<Rightarrow> js_error + jsstring" where
  "sideEffects_section P data message =
     (case own_prop data (js ''sideEffects'') of
        Some (JArr sideEffects) \<Rightarrow>
          if sideEffects \<noteq> []
          then sideEffects_loop P sideEffects (message @ js ''Side Effects:'' @ [LF])
          else Inr message
      | _ \<Rightarrow> Inr message)"

definition note_section ::
  "('n::zero) platform \<Rightarrow> 'n json \<Rightarrow> jsstring \<Rightarrow> js_error + jsstring" where
  "note_section P data message =
     (let note = own_prop data (js ''note'')
      in if ToBoolean note
         then and_then (ToString_opt P note) (\<lambda>s. Inr (message @ js ''Note:'' @ [LF] @ s @ [LF]))
         else Inr (message @ js ''Note:'' @ [LF] @
                js ''This information is for educational purposes only. Always consult a qualified healthcare professional.'' @
                [LF]))"

definition formatMedicineData :: "('n::zero) platform \<Rightarrow> 'n json \<Rightarrow> js_error + jsstring" where
  "formatMedicineData P data =
     and_then (get_prop data (js ''name'')) (\<lambda>name.
     and_then (or_default P name (js ''Unknown medicine'')) (\<lambda>title.
     and_then (uses_section P data (title @ [LF, LF])) (\<lambda>message1.
     and_then (sideEffects_section P data message1) (\<lambda>message2.
     and_then (note_section P data message2) (\<lambda>message3.
     Inr (trim message3))))))"

section \<open>POST /api/ai\<close>

text \<open>
  The handler is a function of the request body (\<open>None\<close> when the body is undefined) and
  of the upstream capability. Obtaining the model throws \<open>err\<close> when
  \<open>getGenerativeModel\<close> is \<open>Some err\<close>; \<open>generateContent prompt\<close> is \<open>Inl err\<close> when the
  call, its response or its text throws or rejects with \<open>err\<close>, and \<open>Inr text\<close>
  otherwise (\<open>None\<close> for an undefined text). The result holds the response, the calls
  made to the capability in their order, and what was written to the console. The inner
  \<open>try\<close> block assigns \<open>parsed\<close> and then \<open>formattedText\<close>; an exception from either
  statement goes to the same \<open>catch\<close>, which keeps what was assigned before.
\<close>

record 'e upstream =
  getGenerativeModel :: "'e option"
  generateContent :: "jsstring \<Rightarrow> 'e + jsstring option"

datatype upstream_call = Get_model | Generate_content jsstring

datatype 'n body = Error_body jsstring | Result_body jsstring "'n json"

record 'n response =
  status :: nat
  body :: "'n body"

datatype 'e thrown = Upstream 'e | Script js_error

datatype 'e console_entry = Warn jsstring | Error jsstring "'e thrown"

record ('n, 'e) outcome =
  response :: "'n response"
  calls :: "upstream_call list"
  console :: "'e console_entry list"

definition schema_text :: jsstring where
  \<open>schema_text = concat (map (\<lambda>l. l @ [LF])
     [js ''{'',
      js ''  "name": "string",'',
      js ''  "uses": ["string", "string", ...],'',
      js ''  "sideEffects": ['',
      js ''    { "severity": "Common (affecting more than 1 in 100 people)", "effects": ["string", "string"] },'',
      js ''    { "severity": "Uncommon (affecting 1 to 10 in 1000 people)", "effects": ["string", "string"] },'',
      js ''    { "severity": "Rare (affecting 1 to 10 in 10,000 people)", "effects": ["string", "string"] },'',
      js ''    { "severity": "Very Rare (affecting less than 1 in 10,000 people)", "effects": ["string", "string"] },'',
      js ''    { "severity": "Other potential side effects", "effects": ["string", "string"] },'',
      js ''    { "severity": "Overdose side effects", "effects": ["string", "string"] }'',
      js ''  ],'',
      js ''  "note": "string"'',
      js ''}'',
      [],
      js ''Do not add any commentary outside JSON. Do not wrap it in Markdown unless it'' @ [0x27] @ js ''s a JSON code fence.''])\<close>

definition prompt :: "'n platform \<Rightarrow> 'n json option \<Rightarrow> js_error + jsstring" where
  \<open>prompt P query =
     and_then (ToString_opt P query) (\<lambda>q.
       Inr ([LF] @ js ''Return ONLY valid JSON for the medicine "'' @ q @
            js ''" using EXACTLY this schema:'' @ [LF, LF] @ schema_text))\<close>

text \<open>\<open>response.text() || ''\<close> and \<open>extractJson(rawText) ?? rawText\<close>.\<close>

definition rawText :: "jsstring option \<Rightarrow> jsstring" where
  "rawText text = (case text of None \<Rightarrow> [] | Some t \<Rightarrow> if t \<noteq> [] then t else [])"

definition jsonString :: "jsstring \<Rightarrow> jsstring" where
  "jsonString raw = (case extractJson (Some raw) of None \<Rightarrow> raw | Some s \<Rightarrow> s)"

definition parse_warning :: "'e console_entry" where
  "parse_warning = Warn (js ''Could not parse JSON from Gemini, returning raw text.'')"

text \<open>\<open>req.body ?? {}\<close>.\<close>

definition body_or_empty :: "'n json option \<Rightarrow> 'n json" where
  "body_or_empty req_body =
     (case req_body of None \<Rightarrow> JObj [] | Some JNull \<Rightarrow> JObj [] | Some b \<Rightarrow> b)"

definition server_error :: "'n response" where
  "server_error = \<lparr>status = 500, body = Error_body (js ''Gemini AI request failed'')\<rparr>"

text \<open>The inner \<open>try\<close> block and the response that follows it.\<close>

definition respond :: "('n::zero) platform \<Rightarrow> jsstring \<Rightarrow> 'n response \<times> 'e console_entry list" where
  "respond P raw =
     (case JSON_parse P (jsonString raw) of
        Inl e \<Rightarrow> (\<lparr>status = 200, body = Result_body raw JNull\<rparr>, [parse_warning])
      | Inr parsed \<Rightarrow>
          (case formatMedicineData P parsed of
             Inl e \<Rightarrow> (\<lparr>status = 200, body = Result_body raw parsed\<rparr>, [parse_warning])
           | Inr formattedText \<Rightarrow>
               (\<lparr>status = 200, body = Result_body formattedText parsed\<rparr>, [])))"

definition api_ai ::
  "('n::zero) platform \<Rightarrow> 'e upstream \<Rightarrow> 'n json option \<Rightarrow> ('n, 'e) outcome" where
  "api_ai P U req_body =
     (let query = own_prop (body_or_empty req_body) (js ''query'')
      in if \<not> ToBoolean query then
           \<lparr>response = \<lparr>status = 400, body = Error_body (js ''query is required'')\<rparr>,
            calls = [], console = []\<rparr>
         else
           (case getGenerativeModel U of
              Some err \<Rightarrow>
                \<lparr>response = server_error, calls = [Get_model],
                 console = [Error (js ''Gemini Error:'') (Upstream err)]\<rparr>
            | None \<Rightarrow>
                (case prompt P query of
                   Inl e \<Rightarrow>
                     \<lparr>response = server_error, calls = [Get_model],
                      console = [Error (js ''Gemini Error:'') (Script e)]\<rparr>
                 | Inr p \<Rightarrow>
                     (case generateContent U p of
                        Inl err \<Rightarrow>
                          \<lparr>response = server_error, calls = [Get_model, Generate_content p],
                           console = [Error (js ''Gemini Error:'') (Upstream err)]\<rparr>
                      | Inr text \<Rightarrow>
                          (case respond P (rawText text) of
                             (res, logged) \<Rightarrow>
                               \<lparr>response = res, calls = [Get_model, Generate_content p],
                                console = logged\<rparr>)))))"

section \<open>The properties, in the words of the specification\<close>

text \<open>
  A fence is the marker of three backticks. A JSON label is the marker followed by the
  word \<open>json\<close> in any mix of ASCII upper and lower case. A text contains a fenced block
  when a fence is followed, after any interior, by another fence; the block is labelled
  when its opening fence carries the label. The first block starts at the leftmost
  opener and ends at the nearest fence after it.
\<close>

definition ascii_lower :: "code_unit \<Rightarrow> code_unit" where
  "ascii_lower c = (if 0x41 \<le> c \<and> c \<le> 0x5A then c + 0x20 else c)"

definition is_json_opener :: "jsstring \<Rightarrow> bool" where
  "is_json_opener op \<longleftrightarrow> map ascii_lower op = json_fence"

definition fence_at :: "jsstring \<Rightarrow> nat \<Rightarrow> bool" where
  "fence_at t k \<longleftrightarrow> take (length fence) (drop k t) = fence"

definition json_opener_at :: "jsstring \<Rightarrow> nat \<Rightarrow> bool" where
  "json_opener_at t k \<longleftrightarrow> is_json_opener (take (length json_fence) (drop k t))"

definition contains_fence :: "jsstring \<Rightarrow> bool" where
  "contains_fence t \<longleftrightarrow> (\<exists>pre g post. t = pre @ fence @ g @ fence @ post)"

definition contains_json_fence :: "jsstring \<Rightarrow> bool" where
  "contains_json_fence t \<longleftrightarrow>
     (\<exists>pre op g post. t = pre @ op @ g @ fence @ post \<and> is_json_opener op)"

definition first_json_block ::
  "jsstring \<Rightarrow> jsstring \<Rightarrow> jsstring \<Rightarrow> jsstring \<Rightarrow> jsstring \<Rightarrow> bool" where
  "first_json_block t pre op g post \<longleftrightarrow>
     t = pre @ op @ g @ fence @ post \<and> is_json_opener op \<and>
     list_all (\<lambda>k. \<not> json_opener_at t k) [0..<length pre] \<and>
     list_all (\<lambda>k. \<not> fence_at (g @ fence @ post) k) [0..<length g]"

definition first_fence_block :: "jsstring \<Rightarrow> jsstring \<Rightarrow> jsstring \<Rightarrow> jsstring \<Rightarrow> bool" where
  "first_fence_block t pre g post \<longleftrightarrow>
     t = pre @ fence @ g @ fence @ post \<and>
     list_all (\<lambda>k. \<not> fence_at t k) [0..<length pre] \<and>
     list_all (\<lambda>k. \<not> fence_at (g @ fence @ post) k) [0..<length g]"

text \<open>
  The brace span of a text runs from its first opening brace to its last closing brace,
  when the first comes strictly before the last.
\<close>

definition brace_span :: "jsstring \<Rightarrow> jsstring \<Rightarrow> bool" where
  "brace_span t s \<longleftrightarrow>
     (\<exists>a m b. t = a @ s @ b \<and> s = LBRACE # m @ [RBRACE] \<and>
        LBRACE \<notin> set a \<and> RBRACE \<notin> set b)"

text \<open>
  A request has no query when the body is undefined or holds no \<open>query\<close> property.
\<close>

definition missing_query :: "'n json option \<Rightarrow> bool" where
  "missing_query req_body \<longleftrightarrow>
     (case req_body of None \<Rightarrow> True | Some b \<Rightarrow> own_prop b (js ''query'') = None)"

definition bad_request :: "'n response" where
  "bad_request = \<lparr>status = 400, body = Error_body (js ''query is required'')\<rparr>"

text \<open>
  The upstream call fails with \<open>err\<close> when obtaining the model throws it, or when the
  model is obtained, the prompt is built, and the completion throws or rejects with it.
\<close>

definition upstream_fails :: "'n platform \<Rightarrow> 'e upstream \<Rightarrow> 'n json option \<Rightarrow> 'e \<Rightarrow> bool" where
  "upstream_fails P U query err \<longleftrightarrow>
     getGenerativeModel U = Some err \<or>
     (getGenerativeModel U = None \<and>
      (case prompt P query of Inl e \<Rightarrow> False | Inr p \<Rightarrow> generateContent U p = Inl err))"

text \<open>
  A value is printable when no object in it has an own property \<open>toString\<close>.
\<close>

fun printable :: "'n json \<Rightarrow> bool" where
  "printable (JArr xs) = list_all printable xs"
| "printable (JObj kvs) =
     (map_of kvs (js ''toString'') = None \<and> list_all (\<lambda>kv. printable (snd kv)) kvs)"
| "printable v = True"

text \<open>
  A platform and three upstream capabilities for closed examples; none of the examples
  converts a number or serialises an object.
\<close>

definition sample_platform :: "int platform" where
  "sample_platform =
     \<lparr>Number_toString = (\<lambda>n. js ''0''), StringToNumber = (\<lambda>s. 0),
      JSON_stringify = (\<lambda>v. js ''{}'')\<rparr>"

definition failing_upstream :: "jsstring upstream" where
  "failing_upstream =
     \<lparr>getGenerativeModel = None, generateContent = (\<lambda>p. Inl (js ''quota exceeded''))\<rparr>"

definition broken_upstream :: "jsstring upstream" where
  "broken_upstream =
     \<lparr>getGenerativeModel = Some (js ''invalid API key''),
      generateContent = (\<lambda>p. Inr (Some []))\<rparr>"

definition answering_upstream :: "jsstring \<Rightarrow> jsstring upstream" where
  "answering_upstream text =
     \<lparr>getGenerativeModel = None, generateContent = (\<lambda>p. Inr (Some text))\<rparr>"

section \<open>The regular expressions find the first block\<close>

lemma match_literal_Some_iff:
  "match_literal ic p cs = Some rest \<longleftrightarrow>
     (\<exists>m. cs = m @ rest \<and> list_all2 (same_unit ic) p m)"
proof (induction ic p cs rule: match_literal.induct)
  case (1 ic cs)
  then show ?case by auto
next
  case (2 ic p ps)
  then show ?case by (auto simp: list_all2_Cons1)
next
  case (3 ic p ps c cs)
  then show ?case by (auto simp: list_all2_Cons1)
qed

lemma match_lazy_first:
  assumes "list_all2 (same_unit ic) closer cl"
    and "\<forall>k<length g. match_literal ic closer (drop k (g @ cl @ post)) = None"
  shows "match_lazy ic closer (g @ cl @ post) = Some g"
  using assms
proof (induction g)
  case Nil
  have "match_literal ic closer (cl @ post) = Some post"
    using Nil.prems(1) by (auto simp: match_literal_Some_iff)
  then show ?case by (cases "cl @ post") auto
next
  case (Cons c g)
  have "match_literal ic closer (c # g @ cl @ post) = None"
    using Cons.prems(2) by force
  moreover have "\<forall>k<length g. match_literal ic closer (drop k (g @ cl @ post)) = None"
  proof (intro allI impI)
    fix k assume "k < length g"
    then have "Suc k < length (c # g)" by simp
    then have "match_literal ic closer (drop (Suc k) ((c # g) @ cl @ post)) = None"
      using Cons.prems(2) by blast
    then show "match_literal ic closer (drop k (g @ cl @ post)) = None" by simp
  qed
  ultimately show ?case using Cons.IH Cons.prems(1) by simp
qed

lemma match_lazy_exists:
  assumes "list_all2 (same_unit ic) closer cl"
  shows "match_lazy ic closer (g @ cl @ post) \<noteq> None"
proof (induction g)
  case Nil
  have "match_literal ic closer (cl @ post) = Some post"
    using assms by (auto simp: match_literal_Some_iff)
  then show ?case by (cases "cl @ post") auto
next
  case (Cons c g)
  then show ?case by (auto split: option.splits)
qed

lemma match_lazy_sound:
  "match_lazy ic closer cs = Some g \<Longrightarrow>
     \<exists>cl post. cs = g @ cl @ post \<and> list_all2 (same_unit ic) closer cl \<and>
       (\<forall>k<length g. match_literal ic closer (drop k cs) = None)"
proof (induction cs arbitrary: g)
  case Nil
  then show ?case by (auto simp: match_literal_Some_iff split: option.splits)
next
  case (Cons c cs)
  show ?case
  proof (cases "match_literal ic closer (c # cs)")
    case (Some rest)
    with Cons.prems have "g = []" by simp
    with Some show ?thesis by (auto simp: match_literal_Some_iff)
  next
    case None
    with Cons.prems obtain g' where g': "match_lazy ic closer cs = Some g'" "g = c # g'"
      by auto
    from Cons.IH[OF g'(1)] obtain cl post where
      *: "cs = g' @ cl @ post" "list_all2 (same_unit ic) closer cl"
         "\<forall>k<length g'. match_literal ic closer (drop k cs) = None" by blast
    have "\<forall>k<length g. match_literal ic closer (drop k (c # cs)) = None"
    proof (intro allI impI)
      fix k assume k: "k < length g"
      show "match_literal ic closer (drop k (c # cs)) = None"
      proof (cases k)
        case 0 then show ?thesis using None by simp
      next
        case (Suc j) then show ?thesis using k g'(2) *(3) by simp
      qed
    qed
    with * g'(2) show ?thesis by auto
  qed
qed

lemma regex_capture_first:
  assumes "t = pre @ op @ g @ cl @ post"
    and "list_all2 (same_unit ic) opener op"
    and "list_all2 (same_unit ic) closer cl"
    and "\<forall>k<length pre. match_literal ic opener (drop k t) = None"
    and "\<forall>k<length g. match_literal ic closer (drop k (g @ cl @ post)) = None"
  shows "regex_capture ic opener closer t = Some g"
  using assms(1,4)
proof (induction pre arbitrary: t)
  case Nil
  have "match_literal ic opener t = Some (g @ cl @ post)"
    using Nil.prems(1) assms(2) by (auto simp: match_literal_Some_iff)
  then have "match_at ic opener closer t = Some g"
    using match_lazy_first[OF assms(3,5)] by (simp add: match_at_def)
  then show ?case by (cases t) auto
next
  case (Cons c pre)
  have "match_literal ic opener t = None" using Cons.prems(2) by force
  then have none: "match_at ic opener closer t = None" by (simp add: match_at_def)
  let ?t' = "pre @ op @ g @ cl @ post"
  have "\<forall>k<length pre. match_literal ic opener (drop k ?t') = None"
  proof (intro allI impI)
    fix k assume "k < length pre"
    then have "Suc k < length (c # pre)" by simp
    then have "match_literal ic opener (drop (Suc k) t) = None" using Cons.prems(2) by blast
    then show "match_literal ic opener (drop k ?t') = None" using Cons.prems(1) by simp
  qed
  then have "regex_capture ic opener closer ?t' = Some g" using Cons.IH by blast
  then show ?case using Cons.prems(1) none by simp
qed

lemma regex_capture_exists:
  assumes "list_all2 (same_unit ic) opener op" and "list_all2 (same_unit ic) closer cl"
  shows "regex_capture ic opener closer (pre @ op @ g @ cl @ post) \<noteq> None"
proof (induction pre)
  case Nil
  have "match_literal ic opener (op @ g @ cl @ post) = Some (g @ cl @ post)"
    using assms(1) by (auto simp: match_literal_Some_iff)
  then have "match_at ic opener closer (op @ g @ cl @ post) \<noteq> None"
    using match_lazy_exists[OF assms(2)] by (simp add: match_at_def)
  then show ?case by (cases "op @ g @ cl @ post") (auto split: option.splits)
next
  case (Cons c pre)
  then show ?case by (auto split: option.splits)
qed

lemma match_at_sound:
  assumes "match_at ic opener closer cs = Some g"
  shows "\<exists>op cl post. cs = op @ g @ cl @ post \<and> list_all2 (same_unit ic) opener op \<and>
           list_all2 (same_unit ic) closer cl \<and>
           (\<forall>k<length g. match_literal ic closer (drop k (g @ cl @ post)) = None)"
proof -
  from assms obtain rest where r: "match_literal ic opener cs = Some rest"
    "match_lazy ic closer rest = Some g"
    by (auto simp: match_at_def split: option.splits)
  from r(1) obtain op where op: "cs = op @ rest" "list_all2 (same_unit ic) opener op"
    by (auto simp: match_literal_Some_iff)
  from match_lazy_sound[OF r(2)] obtain cl post where
    "rest = g @ cl @ post" "list_all2 (same_unit ic) closer cl"
    "\<forall>k<length g. match_literal ic closer (drop k rest) = None" by blast
  with op show ?thesis by blast
qed

lemma regex_capture_sound:
  "regex_capture ic opener closer t = Some g \<Longrightarrow>
     \<exists>pre op cl post. t = pre @ op @ g @ cl @ post \<and>
        list_all2 (same_unit ic) opener op \<and> list_all2 (same_unit ic) closer cl \<and>
        (\<forall>k<length pre. match_literal ic opener (drop k t) = None) \<and>
        (\<forall>k<length g. match_literal ic closer (drop k (g @ cl @ post)) = None)"
proof (induction t)
  case Nil
  from match_at_sound[of ic opener closer "[]" g] Nil
  show ?case by fastforce
next
  case (Cons c cs)
  show ?case
  proof (cases "match_at ic opener closer (c # cs)")
    case (Some g')
    with Cons.prems have "g' = g" by simp
    from match_at_sound[OF Some[unfolded this]] obtain op cl post where
      "c # cs = op @ g @ cl @ post" "list_all2 (same_unit ic) opener op"
      "list_all2 (same_unit ic) closer cl"
      "\<forall>k<length g. match_literal ic closer (drop k (g @ cl @ post)) = None" by blast
    then have "c # cs = [] @ op @ g @ cl @ post \<and> list_all2 (same_unit ic) opener op \<and>
        list_all2 (same_unit ic) closer cl \<and>
        (\<forall>k<length ([]::jsstring). match_literal ic opener (drop k (c # cs)) = None) \<and>
        (\<forall>k<length g. match_literal ic closer (drop k (g @ cl @ post)) = None)"
      by simp
    then show ?thesis by blast
  next
    case None
    with Cons.prems have "regex_capture ic opener closer cs = Some g" by simp
    from Cons.IH[OF this] obtain pre op cl post where
      *: "cs = pre @ op @ g @ cl @ post" "list_all2 (same_unit ic) opener op"
      "list_all2 (same_unit ic) closer cl"
      "\<forall>k<length pre. match_literal ic opener (drop k cs) = None"
      "\<forall>k<length g. match_literal ic closer (drop k (g @ cl @ post)) = None" by blast
    have nl: "match_literal ic opener (c # cs) = None"
    proof (cases "match_literal ic opener (c # cs)")
      case (Some rest)
      then obtain op' where "c # cs = op' @ rest" "list_all2 (same_unit ic) opener op'"
        by (auto simp: match_literal_Some_iff)
      have len: "length op' = length op"
        using \<open>list_all2 (same_unit ic) opener op'\<close> *(2) by (auto dest!: list_all2_lengthD)
      have "rest = drop (length op') (c # cs)" using \<open>c # cs = op' @ rest\<close> by simp
      also have "\<dots> = drop (length op') ((c # pre @ op @ g) @ cl @ post)"
        using *(1) by simp
      also have "\<dots> = drop (length op') (c # pre @ op @ g) @ cl @ post"
        using len drop_append[of "length op'" "c # pre @ op @ g" "cl @ post"] by simp
      finally have "match_lazy ic closer rest \<noteq> None"
        using match_lazy_exists[OF *(3)] by simp
      with Some have "match_at ic opener closer (c # cs) \<noteq> None"
        by (simp add: match_at_def)
      with None show ?thesis by simp
    qed simp
    have "\<forall>k<length (c # pre). match_literal ic opener (drop k (c # cs)) = None"
    proof (intro allI impI)
      fix k assume k: "k < length (c # pre)"
      show "match_literal ic opener (drop k (c # cs)) = None"
      proof (cases k)
        case 0 then show ?thesis using nl by simp
      next
        case (Suc j) then show ?thesis using k *(4) by simp
      qed
    qed
    with * have "c # cs = (c # pre) @ op @ g @ cl @ post \<and> list_all2 (same_unit ic) opener op \<and>
        list_all2 (same_unit ic) closer cl \<and>
        (\<forall>k<length (c # pre). match_literal ic opener (drop k (c # cs)) = None) \<and>
        (\<forall>k<length g. match_literal ic closer (drop k (g @ cl @ post)) = None)"
      by simp
    then show ?thesis by blast
  qed
qed

lemma same_unit_json_fence:
  "p \<in> set json_fence \<Longrightarrow> same_unit True p c \<longleftrightarrow> ascii_lower c = p"
  unfolding same_unit_def canonicalize_def ascii_lower_def json_fence_def js_def
  by (auto simp: word_le_nat_alt word_eq_iff_unsigned[where ?'a=nat] unat_sub
      unat_plus_if_size word_size split: if_splits)

lemma same_unit_fence:
  "p \<in> set fence \<Longrightarrow> same_unit ic p c \<longleftrightarrow> c = p"
  unfolding same_unit_def canonicalize_def fence_def js_def
  by (auto simp: word_le_nat_alt word_eq_iff_unsigned[where ?'a=nat] unat_sub
      word_size split: if_splits)

lemma list_all2_pointwise:
  assumes "\<And>p c. p \<in> set ps \<Longrightarrow> R p c \<longleftrightarrow> f c = p"
  shows "list_all2 R ps m \<longleftrightarrow> map f m = ps"
  using assms
proof (induction ps arbitrary: m)
  case Nil
  then show ?case by simp
next
  case (Cons p ps)
  then show ?case by (cases m) auto
qed

lemma opener_match_json: "list_all2 (same_unit True) json_fence m \<longleftrightarrow> is_json_opener m"
  unfolding is_json_opener_def
  by (rule list_all2_pointwise) (rule same_unit_json_fence)

lemma closer_match_fence: "list_all2 (same_unit ic) fence m \<longleftrightarrow> m = fence"
  using list_all2_pointwise[of fence "same_unit ic" "\<lambda>c. c" m]
  by (auto simp: same_unit_fence)

lemma match_literal_None_iff:
  "match_literal ic p cs = None \<longleftrightarrow> \<not> list_all2 (same_unit ic) p (take (length p) cs)"
proof -
  have "(\<exists>rest. match_literal ic p cs = Some rest) \<longleftrightarrow>
        list_all2 (same_unit ic) p (take (length p) cs)"
  proof
    assume "\<exists>rest. match_literal ic p cs = Some rest"
    then obtain rest m where "cs = m @ rest" "list_all2 (same_unit ic) p m"
      by (auto simp: match_literal_Some_iff)
    moreover from this have "length p = length m" by (auto dest: list_all2_lengthD)
    ultimately show "list_all2 (same_unit ic) p (take (length p) cs)" by simp
  next
    assume "list_all2 (same_unit ic) p (take (length p) cs)"
    moreover have "cs = take (length p) cs @ drop (length p) cs" by simp
    ultimately have "match_literal ic p cs = Some (drop (length p) cs)"
      unfolding match_literal_Some_iff by blast
    then show "\<exists>rest. match_literal ic p cs = Some rest" by blast
  qed
  then show ?thesis by (cases "match_literal ic p cs") auto
qed

lemma fence_literal_None: "match_literal ic fence (drop k t) = None \<longleftrightarrow> \<not> fence_at t k"
  by (auto simp: match_literal_None_iff closer_match_fence fence_at_def)

lemma json_literal_None:
  "match_literal True json_fence (drop k t) = None \<longleftrightarrow> \<not> json_opener_at t k"
  by (simp add: match_literal_None_iff opener_match_json json_opener_at_def)

lemma json_capture_first:
  assumes "first_json_block t pre op g post"
  shows "regex_capture True json_fence fence t = Some g"
proof (rule regex_capture_first)
  show "t = pre @ op @ g @ fence @ post" using assms by (simp add: first_json_block_def)
  show "list_all2 (same_unit True) json_fence op"
    using assms by (simp add: first_json_block_def opener_match_json)
  show "list_all2 (same_unit True) fence fence" by (simp add: closer_match_fence)
  have "list_all (\<lambda>k. \<not> json_opener_at t k) [0..<length pre]"
    using assms unfolding first_json_block_def by blast
  then show "\<forall>k<length pre. match_literal True json_fence (drop k t) = None"
    unfolding json_literal_None by (simp add: list_all_iff)
  have "list_all (\<lambda>k. \<not> fence_at (g @ fence @ post) k) [0..<length g]"
    using assms unfolding first_json_block_def by blast
  then show "\<forall>k<length g. match_literal True fence (drop k (g @ fence @ post)) = None"
    unfolding fence_literal_None by (simp add: list_all_iff)
qed

lemma json_capture_sound:
  assumes "regex_capture True json_fence fence t = Some g"
  shows "\<exists>pre op post. first_json_block t pre op g post"
proof -
  from regex_capture_sound[OF assms] obtain pre op cl post where
    *: "t = pre @ op @ g @ cl @ post" "list_all2 (same_unit True) json_fence op"
       "list_all2 (same_unit True) fence cl"
       "\<forall>k<length pre. match_literal True json_fence (drop k t) = None"
       "\<forall>k<length g. match_literal True fence (drop k (g @ cl @ post)) = None"
    by blast
  from *(3) have cl: "cl = fence" by (simp add: closer_match_fence)
  have "list_all (\<lambda>k. \<not> json_opener_at t k) [0..<length pre]"
    using *(4) unfolding json_literal_None by (simp add: list_all_iff)
  moreover have "list_all (\<lambda>k. \<not> fence_at (g @ fence @ post) k) [0..<length g]"
    using *(5) unfolding cl fence_literal_None by (simp add: list_all_iff)
  ultimately have "first_json_block t pre op g post"
    using *(1,2) unfolding cl first_json_block_def opener_match_json by blast
  then show ?thesis by blast
qed

lemma json_capture_None_iff:
  "regex_capture True json_fence fence t = None \<longleftrightarrow> \<not> contains_json_fence t"
proof
  assume n: "regex_capture True json_fence fence t = None"
  show "\<not> contains_json_fence t"
  proof
    assume "contains_json_fence t"
    then obtain pre op g post where "t = pre @ op @ g @ fence @ post" "is_json_opener op"
      by (auto simp: contains_json_fence_def)
    then have "regex_capture True json_fence fence t \<noteq> None"
      using regex_capture_exists[of True json_fence op fence fence pre g post]
      by (simp add: opener_match_json closer_match_fence)
    with n show False by simp
  qed
next
  assume c: "\<not> contains_json_fence t"
  show "regex_capture True json_fence fence t = None"
  proof (cases "regex_capture True json_fence fence t")
    case (Some g)
    from json_capture_sound[OF Some] have "contains_json_fence t"
      by (auto simp: first_json_block_def contains_json_fence_def)
    with c show ?thesis by simp
  qed simp
qed

lemma fence_capture_first:
  assumes "first_fence_block t pre g post"
  shows "regex_capture False fence fence t = Some g"
proof (rule regex_capture_first)
  show "t = pre @ fence @ g @ fence @ post" using assms by (simp add: first_fence_block_def)
  show "list_all2 (same_unit False) fence fence" by (simp add: closer_match_fence)
  then show "list_all2 (same_unit False) fence fence" .
  have "list_all (\<lambda>k. \<not> fence_at t k) [0..<length pre]"
    using assms unfolding first_fence_block_def by blast
  then show "\<forall>k<length pre. match_literal False fence (drop k t) = None"
    unfolding fence_literal_None by (simp add: list_all_iff)
  have "list_all (\<lambda>k. \<not> fence_at (g @ fence @ post) k) [0..<length g]"
    using assms unfolding first_fence_block_def by blast
  then show "\<forall>k<length g. match_literal False fence (drop k (g @ fence @ post)) = None"
    unfolding fence_literal_None by (simp add: list_all_iff)
qed

lemma fence_capture_sound:
  assumes "regex_capture False fence fence t = Some g"
  shows "\<exists>pre post. first_fence_block t pre g post"
proof -
  from regex_capture_sound[OF assms] obtain pre op cl post where
    *: "t = pre @ op @ g @ cl @ post" "list_all2 (same_unit False) fence op"
       "list_all2 (same_unit False) fence cl"
       "\<forall>k<length pre. match_literal False fence (drop k t) = None"
       "\<forall>k<length g. match_literal False fence (drop k (g @ cl @ post)) = None"
    by blast
  from *(2,3) have cl: "cl = fence" "op = fence" by (simp_all add: closer_match_fence)
  have "list_all (\<lambda>k. \<not> fence_at t k) [0..<length pre]"
    using *(4) unfolding fence_literal_None by (simp add: list_all_iff)
  moreover have "list_all (\<lambda>k. \<not> fence_at (g @ fence @ post) k) [0..<length g]"
    using *(5) unfolding cl fence_literal_None by (simp add: list_all_iff)
  ultimately have "first_fence_block t pre g post"
    using *(1) unfolding cl first_fence_block_def by blast
  then show ?thesis by blast
qed

lemma fence_capture_None_iff:
  "regex_capture False fence fence t = None \<longleftrightarrow> \<not> contains_fence t"
proof
  assume n: "regex_capture False fence fence t = None"
  show "\<not> contains_fence t"
  proof
    assume "contains_fence t"
    then obtain pre g post where "t = pre @ fence @ g @ fence @ post"
      by (auto simp: contains_fence_def)
    then have "regex_capture False fence fence t \<noteq> None"
      using regex_capture_exists[of False fence fence fence fence pre g post]
      by (simp add: closer_match_fence)
    with n show False by simp
  qed
next
  assume c: "\<not> contains_fence t"
  show "regex_capture False fence fence t = None"
  proof (cases "regex_capture False fence fence t")
    case (Some g)
    from fence_capture_sound[OF Some] have "contains_fence t"
      by (auto simp: first_fence_block_def contains_fence_def)
    with c show ?thesis by simp
  qed simp
qed

lemma json_opener_starts_with_fence:
  assumes "is_json_opener op"
  shows "\<exists>label. op = fence @ label"
proof -
  from assms have m: "map ascii_lower op = json_fence" by (simp add: is_json_opener_def)
  then have len: "length op = 7" 
    using length_map[of ascii_lower op] by (simp add: json_fence_def js_def)
  have "map ascii_lower (take 3 op) = fence"
    using m by (simp add: json_fence_def fence_def js_def flip: take_map)
  then have "list_all2 (same_unit True) fence (take 3 op)"
    using list_all2_pointwise[of fence "same_unit True" ascii_lower "take 3 op"]
      same_unit_json_fence
    by (auto simp: fence_def json_fence_def js_def)
  then have "take 3 op = fence" by (simp add: closer_match_fence)
  then have "op = fence @ drop 3 op" by (metis append_take_drop_id)
  then show ?thesis by blast
qed

lemma contains_json_fence_imp_fence:
  "contains_json_fence t \<Longrightarrow> contains_fence t"
proof -
  assume "contains_json_fence t"
  then obtain pre op g post where *: "t = pre @ op @ g @ fence @ post" "is_json_opener op"
    by (auto simp: contains_json_fence_def)
  from json_opener_starts_with_fence[OF *(2)] obtain label where "op = fence @ label" by blast
  with *(1) have "t = pre @ fence @ (label @ g) @ fence @ post" by simp
  then show ?thesis unfolding contains_fence_def by blast
qed

section \<open>indexOf, lastIndexOf and slice\<close>

lemma indexOf_ge: "- 1 \<le> indexOf t c"
  by (induction t) (auto simp: Let_def)

lemma indexOf_first: "c \<notin> set a \<Longrightarrow> indexOf (a @ c # b) c = int (length a)"
  by (induction a) (auto simp: Let_def)

lemma indexOf_absent: "indexOf t c = - 1 \<longleftrightarrow> c \<notin> set t"
proof (induction t)
  case Nil
  then show ?case by simp
next
  case (Cons x t)
  then show ?case using indexOf_ge[of t c] by (auto simp: Let_def)
qed

lemma lastIndexOf_ge: "- 1 \<le> lastIndexOf t c"
  by (induction t) (auto simp: Let_def)

lemma lastIndexOf_absent: "lastIndexOf t c = - 1 \<longleftrightarrow> c \<notin> set t"
proof (induction t)
  case Nil
  then show ?case by simp
next
  case (Cons x t)
  then show ?case using lastIndexOf_ge[of t c] by (auto simp: Let_def)
qed

lemma lastIndexOf_last: "c \<notin> set b \<Longrightarrow> lastIndexOf (a @ c # b) c = int (length a)"
proof (induction a)
  case Nil
  then show ?case using lastIndexOf_absent[of b c] by (simp add: Let_def)
next
  case (Cons x a)
  then show ?case by (simp add: Let_def)
qed

lemma slice_middle: "slice_js (a @ s @ b) (int (length a)) (int (length a) + int (length s)) = s"
  by (simp add: slice_js_def Let_def)

lemma braces_differ: "LBRACE \<noteq> RBRACE"
  by (simp add: LBRACE_def RBRACE_def)

lemma brace_fallback_span:
  assumes "brace_span t s"
  shows "indexOf t LBRACE \<noteq> - 1 \<and> lastIndexOf t RBRACE \<noteq> - 1 \<and>
         lastIndexOf t RBRACE > indexOf t LBRACE \<and>
         slice_js t (indexOf t LBRACE) (lastIndexOf t RBRACE + 1) = s"
proof -
  from assms obtain a m b where
    *: "t = a @ s @ b" "s = LBRACE # m @ [RBRACE]" "LBRACE \<notin> set a" "RBRACE \<notin> set b"
    unfolding brace_span_def by blast
  have t1: "t = a @ LBRACE # (m @ RBRACE # b)" using * by simp
  have t2: "t = (a @ LBRACE # m) @ RBRACE # b" using * by simp
  have i: "indexOf t LBRACE = int (length a)"
    unfolding t1 using *(3) by (rule indexOf_first)
  have j: "lastIndexOf t RBRACE = int (length (a @ LBRACE # m))"
    unfolding t2 using *(4) by (rule lastIndexOf_last)
  have "slice_js t (int (length a)) (int (length a) + int (length s)) = s"
    unfolding *(1) by (rule slice_middle)
  moreover have "lastIndexOf t RBRACE + 1 = int (length a) + int (length s)"
    unfolding j using *(2) by simp
  ultimately have "slice_js t (indexOf t LBRACE) (lastIndexOf t RBRACE + 1) = s"
    unfolding i by simp
  moreover have "indexOf t LBRACE \<noteq> - 1" unfolding i by simp
  moreover have "lastIndexOf t RBRACE \<noteq> - 1" unfolding j by simp
  moreover have "lastIndexOf t RBRACE > indexOf t LBRACE" unfolding i j by simp
  ultimately show ?thesis by blast
qed

lemma brace_fallback_none:
  assumes "indexOf t LBRACE \<noteq> - 1" and "lastIndexOf t RBRACE > indexOf t LBRACE"
  shows "\<exists>s. brace_span t s"
proof -
  from assms(1) have "LBRACE \<in> set t" by (simp add: indexOf_absent)
  then obtain a r where a: "t = a @ LBRACE # r" "LBRACE \<notin> set a"
    by (auto dest: split_list_first)
  have i: "indexOf t LBRACE = int (length a)" unfolding a(1) using a(2) by (rule indexOf_first)
  with assms(2) indexOf_ge[of t LBRACE] have "lastIndexOf t RBRACE \<noteq> - 1" by linarith
  then have "RBRACE \<in> set t" by (simp add: lastIndexOf_absent)
  then obtain a' b where b: "t = a' @ RBRACE # b" "RBRACE \<notin> set b"
    by (auto dest: split_list_last)
  have j: "lastIndexOf t RBRACE = int (length a')"
    unfolding b(1) using b(2) by (rule lastIndexOf_last)
  from i j assms(2) have lt: "length a < length a'" by simp
  have "a' = take (length a') t" using b(1) by simp
  also have "\<dots> = a @ take (length a' - length a) (LBRACE # r)"
    using lt unfolding a(1) by simp
  also have "\<dots> = a @ LBRACE # take (length a' - length a - 1) r"
    using lt by (cases "length a' - length a") auto
  finally have "t = a @ (LBRACE # take (length a' - length a - 1) r @ [RBRACE]) @ b"
    using b(1) by simp
  then have "brace_span t (LBRACE # take (length a' - length a - 1) r @ [RBRACE])"
    unfolding brace_span_def using a(2) b(2) by blast
  then show ?thesis by blast
qed

lemma json_block_nonempty: "first_json_block t pre op g post \<Longrightarrow> t \<noteq> []"
  by (auto simp: first_json_block_def is_json_opener_def json_fence_def js_def)

lemma fence_block_nonempty: "first_fence_block t pre g post \<Longrightarrow> t \<noteq> []"
  by (auto simp: first_fence_block_def fence_def js_def)

section \<open>What extractJson returns\<close>

lemmas eval_defs = js_def LF_def LBRACE_def RBRACE_def fence_def json_fence_def

lemmas block_eval = first_json_block_def first_fence_block_def is_json_opener_def
  json_opener_at_def fence_at_def ascii_lower_def eval_defs

lemmas regex_eval = match_at_def same_unit_def canonicalize_def eval_defs

text \<open>The interior of the first block is determined by the text.\<close>

lemma first_json_block_unique:
  assumes "first_json_block t pre op g post" and "first_json_block t pre' op' g' post'"
  shows "g = g'"
  using json_capture_first[OF assms(1)] json_capture_first[OF assms(2)] by simp

lemma first_fence_block_unique:
  assumes "first_fence_block t pre g post" and "first_fence_block t pre' g' post'"
  shows "g = g'"
  using fence_capture_first[OF assms(1)] fence_capture_first[OF assms(2)] by simp

text \<open>
  Claim C1. Every text that contains a fenced block labelled as JSON, in any case, has a
  first such block, and \<open>extractJson\<close> returns exactly the trimmed interior of that
  block, whatever else the text holds: generic fences and braces before or after it do
  not matter.
\<close>

theorem extractJson_labelled_fence:
  assumes "contains_json_fence t"
  shows "(\<exists>pre op g post. first_json_block t pre op g post) \<and>
         (\<forall>pre op g post. first_json_block t pre op g post \<longrightarrow>
            extractJson (Some t) = Some (trim g))"
proof
  from assms obtain g where "regex_capture True json_fence fence t = Some g"
    using json_capture_None_iff[of t] by (cases "regex_capture True json_fence fence t") auto
  then show "\<exists>pre op g post. first_json_block t pre op g post"
    using json_capture_sound by blast
next
  show "\<forall>pre op g post. first_json_block t pre op g post \<longrightarrow>
          extractJson (Some t) = Some (trim g)"
  proof (intro allI impI)
    fix pre op g post
    assume b: "first_json_block t pre op g post"
    then have "regex_capture True json_fence fence t = Some g" by (rule json_capture_first)
    moreover have "t \<noteq> []" using b by (rule json_block_nonempty)
    ultimately show "extractJson (Some t) = Some (trim g)" by (simp add: extractJson_def)
  qed
qed

text \<open>
  An instance: a generic block before the labelled one, the label in upper case, and
  stray braces after it.
\<close>

theorem extractJson_labelled_fence_witness:
  \<open>contains_json_fence
     (js ''see ```js x``` then ```JSON'' @ [LF] @ js ''{"a":1} '' @ fence @ js '' and { stray }'') \<and>
   first_json_block
     (js ''see ```js x``` then ```JSON'' @ [LF] @ js ''{"a":1} '' @ fence @ js '' and { stray }'')
     (js ''see ```js x``` then '') (js ''```JSON'') ([LF] @ js ''{"a":1} '') (js '' and { stray }'') \<and>
   extractJson (Some
     (js ''see ```js x``` then ```JSON'' @ [LF] @ js ''{"a":1} '' @ fence @ js '' and { stray }'')) =
     Some (js ''{"a":1}'')\<close>
proof -
  let ?t = \<open>js ''see ```js x``` then ```JSON'' @ [LF] @ js ''{"a":1} '' @ fence @ js '' and { stray }''\<close>
  have b: \<open>first_json_block ?t (js ''see ```js x``` then '') (js ''```JSON'')
      ([LF] @ js ''{"a":1} '') (js '' and { stray }'')\<close>
    by (simp add: block_eval)
  then have c: "contains_json_fence ?t"
    unfolding first_json_block_def contains_json_fence_def by blast
  have t: \<open>trim ([LF] @ js ''{"a":1} '') = js ''{"a":1}''\<close>
    by (simp add: trim_def is_ws_def eval_defs)
  from extractJson_labelled_fence [OF c] b
  have \<open>extractJson (Some ?t) = Some (trim ([LF] @ js ''{"a":1} ''))\<close> by blast
  then have e: \<open>extractJson (Some ?t) = Some (js ''{"a":1}'')\<close> by (simp only: t)
  from c b e show ?thesis by (intro conjI)
qed

text \<open>
  Claim C5. Every text with no fenced block labelled as JSON but with a generic fenced
  block has a first generic block, and \<open>extractJson\<close> returns the trimmed interior of
  that block.
\<close>

theorem extractJson_generic_fence:
  assumes "\<not> contains_json_fence t" and "contains_fence t"
  shows "(\<exists>pre g post. first_fence_block t pre g post) \<and>
         (\<forall>pre g post. first_fence_block t pre g post \<longrightarrow>
            extractJson (Some t) = Some (trim g))"
proof
  from assms(2) obtain g where "regex_capture False fence fence t = Some g"
    using fence_capture_None_iff[of t] by (cases "regex_capture False fence fence t") auto
  then show "\<exists>pre g post. first_fence_block t pre g post"
    using fence_capture_sound by blast
next
  have n: "regex_capture True json_fence fence t = None"
    using assms(1) by (simp add: json_capture_None_iff)
  show "\<forall>pre g post. first_fence_block t pre g post \<longrightarrow> extractJson (Some t) = Some (trim g)"
  proof (intro allI impI)
    fix pre g post
    assume b: "first_fence_block t pre g post"
    then have "regex_capture False fence fence t = Some g" by (rule fence_capture_first)
    moreover have "t \<noteq> []" using b by (rule fence_block_nonempty)
    ultimately show "extractJson (Some t) = Some (trim g)"
      using n by (simp add: extractJson_def)
  qed
qed

text \<open>
  An instance: a generic block, braces after it, and a JSON label that no fence closes.
\<close>

theorem extractJson_generic_fence_witness:
  \<open>\<not> contains_json_fence
     (js ''Here: ```'' @ [LF] @ js ''{"a": 1}'' @ [LF] @ js ''``` and { more } ```json'') \<and>
   contains_fence
     (js ''Here: ```'' @ [LF] @ js ''{"a": 1}'' @ [LF] @ js ''``` and { more } ```json'') \<and>
   extractJson (Some
     (js ''Here: ```'' @ [LF] @ js ''{"a": 1}'' @ [LF] @ js ''``` and { more } ```json'')) =
     Some (js ''{"a": 1}'')\<close>
proof -
  let ?t = \<open>js ''Here: ```'' @ [LF] @ js ''{"a": 1}'' @ [LF] @ js ''``` and { more } ```json''\<close>
  have n: "\<not> contains_json_fence ?t"
    unfolding json_capture_None_iff [symmetric] by (simp add: regex_eval)
  have b: \<open>first_fence_block ?t (js ''Here: '') ([LF] @ js ''{"a": 1}'' @ [LF])
      (js '' and { more } ```json'')\<close>
    by (simp add: block_eval)
  then have c: "contains_fence ?t"
    unfolding first_fence_block_def contains_fence_def by blast
  have t: \<open>trim ([LF] @ js ''{"a": 1}'' @ [LF]) = js ''{"a": 1}''\<close>
    by (simp add: trim_def is_ws_def eval_defs)
  from extractJson_generic_fence [OF n c] b
  have \<open>extractJson (Some ?t) = Some (trim ([LF] @ js ''{"a": 1}'' @ [LF]))\<close> by blast
  then have e: \<open>extractJson (Some ?t) = Some (js ''{"a": 1}'')\<close> by (simp only: t)
  from n c e show ?thesis by (intro conjI)
qed

text \<open>
  Claim C4. For a text with no fenced block: when the first opening brace comes strictly
  before the last closing brace, \<open>extractJson\<close> returns the trimmed text from the one to
  the other, both included; otherwise it returns nothing. The absent text and the empty
  text give nothing.
\<close>

theorem extractJson_brace_fallback:
  "extractJson None = None \<and> extractJson (Some []) = None \<and>
   (\<not> contains_fence t \<longrightarrow>
      (\<forall>s. brace_span t s \<longrightarrow> extractJson (Some t) = Some (trim s)) \<and>
      ((\<nexists>s. brace_span t s) \<longrightarrow> extractJson (Some t) = None))"
proof (intro conjI impI allI)
  show "extractJson None = None" by (simp add: extractJson_def)
next
  show "extractJson (Some []) = None" by (simp add: extractJson_def)
next
  fix s
  assume nf: "\<not> contains_fence t" and sp: "brace_span t s"
  have n1: "regex_capture True json_fence fence t = None"
    using nf contains_json_fence_imp_fence json_capture_None_iff by blast
  have n2: "regex_capture False fence fence t = None"
    using nf by (simp add: fence_capture_None_iff)
  have "t \<noteq> []" using sp by (auto simp: brace_span_def)
  then show "extractJson (Some t) = Some (trim s)"
    using n1 n2 brace_fallback_span[OF sp] by (simp add: extractJson_def Let_def)
next
  assume nf: "\<not> contains_fence t" and ns: "\<nexists>s. brace_span t s"
  have n1: "regex_capture True json_fence fence t = None"
    using nf contains_json_fence_imp_fence json_capture_None_iff by blast
  have n2: "regex_capture False fence fence t = None"
    using nf by (simp add: fence_capture_None_iff)
  have "\<not> (indexOf t LBRACE \<noteq> - 1 \<and> lastIndexOf t RBRACE > indexOf t LBRACE)"
    using ns brace_fallback_none by blast
  then show "extractJson (Some t) = None"
    using n1 n2 by (auto simp: extractJson_def Let_def)
qed

text \<open>
  Two instances: braces in prose with a stray closing brace, and a closing brace that
  comes before the only opening one.
\<close>

theorem extractJson_brace_fallback_witness:
  \<open>\<not> contains_fence (js ''say {"a":{"b":1}} and } end'') \<and>
   brace_span (js ''say {"a":{"b":1}} and } end'') (js ''{"a":{"b":1}} and }'') \<and>
   extractJson (Some (js ''say {"a":{"b":1}} and } end'')) = Some (js ''{"a":{"b":1}} and }'') \<and>
   \<not> contains_fence (js ''} no json {'') \<and>
   (\<nexists>s. brace_span (js ''} no json {'') s) \<and>
   extractJson (Some (js ''} no json {'')) = None\<close>
proof -
  let ?t = \<open>js ''say {"a":{"b":1}} and } end''\<close>
  let ?u = \<open>js ''} no json {''\<close>
  have nt: "\<not> contains_fence ?t"
    unfolding fence_capture_None_iff [symmetric] by (simp add: regex_eval)
  have nu: "\<not> contains_fence ?u"
    unfolding fence_capture_None_iff [symmetric] by (simp add: regex_eval)
  have \<open>?t = js ''say '' @ js ''{"a":{"b":1}} and }'' @ js '' end'' \<and>
      js ''{"a":{"b":1}} and }'' = LBRACE # js ''"a":{"b":1}} and '' @ [RBRACE] \<and>
      LBRACE \<notin> set (js ''say '') \<and> RBRACE \<notin> set (js '' end'')\<close>
    by (simp add: eval_defs)
  then have sp: \<open>brace_span ?t (js ''{"a":{"b":1}} and }'')\<close>
    unfolding brace_span_def by blast
  have ns: "\<nexists>s. brace_span ?u s"
  proof
    assume "\<exists>s. brace_span ?u s"
    then obtain s where "brace_span ?u s" ..
    then have "lastIndexOf ?u RBRACE > indexOf ?u LBRACE"
      using brace_fallback_span by blast
    then show False by (simp add: eval_defs)
  qed
  have tr: \<open>trim (js ''{"a":{"b":1}} and }'') = js ''{"a":{"b":1}} and }''\<close>
    by (simp add: trim_def is_ws_def eval_defs)
  from extractJson_brace_fallback [of ?t] nt sp
  have \<open>extractJson (Some ?t) = Some (trim (js ''{"a":{"b":1}} and }''))\<close> by blast
  then have et: \<open>extractJson (Some ?t) = Some (js ''{"a":{"b":1}} and }'')\<close>
    by (simp only: tr)
  from extractJson_brace_fallback [of ?u] nu ns
  have eu: "extractJson (Some ?u) = None" by blast
  from nt sp et nu ns eu show ?thesis by (intro conjI)
qed

section \<open>JSON.parse has fuel enough\<close>

text \<open>
  Every parser consumes input, so a value that parses with some amount of fuel parses
  with any fuel above the number of code units it spans. The fuel \<open>JSON_parse\<close>
  supplies is therefore never the reason for a \<open>SyntaxError\<close>.
\<close>

lemma skip_ws_length: "length (skip_ws cs) \<le> length cs"
  by (simp add: skip_ws_def length_dropWhile_le)

lemma skip_ws_Cons_length: "skip_ws cs = c # cs1 \<Longrightarrow> length cs1 < length cs"
  using skip_ws_length[of cs] by simp

lemma parse_string_shorter: "parse_string cs = Some (s, rest) \<Longrightarrow> length rest < length cs"
proof (induction cs arbitrary: s rule: parse_string.induct)
  case 1
  then show ?case by simp
next
  case (2 c cs)
  then show ?case
    by (fastforce split: if_splits list.splits option.splits)
qed

lemma scan_digits_shorter: "scan_digits cs = Some (ds, rest) \<Longrightarrow> length rest < length cs"
proof -
  assume "scan_digits cs = Some (ds, rest)"
  then have "takeWhile is_digit cs \<noteq> []" "rest = dropWhile is_digit cs"
    by (auto simp: scan_digits_def split: if_splits)
  moreover have "length (takeWhile is_digit cs) + length (dropWhile is_digit cs) = length cs"
    by (metis length_append takeWhile_dropWhile_id)
  ultimately show ?thesis by (cases "takeWhile is_digit cs") auto
qed

lemma scan_frac_shorter: "scan_frac cs = Some (fr, rest) \<Longrightarrow> length rest \<le> length cs"
  by (auto simp: scan_frac_def split: list.splits if_splits dest!: scan_digits_shorter)

lemma scan_exp_shorter: "scan_exp cs = Some (ex, rest) \<Longrightarrow> length rest \<le> length cs"
  by (auto simp: scan_exp_def scan_sign_def split: list.splits if_splits prod.splits
      dest!: scan_digits_shorter)

lemma scan_number_shorter: "scan_number cs = Some (tok, rest) \<Longrightarrow> length rest < length cs"
  by (auto simp: scan_number_def scan_int_def
      split: list.splits if_splits prod.splits option.splits
      dest!: scan_digits_shorter scan_frac_shorter scan_exp_shorter)

lemma literal_shorter:
  "literal w v cs = Some (x, rest) \<Longrightarrow> w \<noteq> [] \<Longrightarrow> length rest < length cs"
proof -
  assume a: "literal w v cs = Some (x, rest)" and w: "w \<noteq> []"
  then obtain m where "cs = m @ rest" "list_all2 (same_unit False) w m"
    by (auto simp: literal_def match_literal_Some_iff)
  moreover from this have "length m = length w" by (auto dest: list_all2_lengthD)
  ultimately show ?thesis using w by simp
qed

lemma js_nonempty: "s \<noteq> [] \<Longrightarrow> js s \<noteq> []"
  by (simp add: js_def)

lemma parse_shorter:
  "parse_value P f cs = Some (v, rest) \<Longrightarrow> length rest < length cs"
  "parse_elements P f acc cs = Some (v, rest) \<Longrightarrow> length rest < length cs"
  "parse_members P f kvs cs = Some (v, rest) \<Longrightarrow> length rest < length cs"
proof (induction P f cs and P f acc cs and P f kvs cs arbitrary: v rest and v rest and v rest
    rule: parse_value_parse_elements_parse_members.induct)
  case (1 P cs)
  then show ?case by simp
next
  case (2 P fuel cs)
  from "2.prems" obtain c cs1 where sk: "skip_ws cs = c # cs1"
    by (auto split: list.splits)
  note l1 = skip_ws_Cons_length[OF sk]
  consider (obj) "c = 0x7B" | (arr) "c \<noteq> 0x7B" "c = 0x5B" | (other) "c \<noteq> 0x7B" "c \<noteq> 0x5B"
    by blast
  then show ?case
  proof cases
    case obj
    from "2.prems" sk obj obtain d cs2 where sk2: "skip_ws cs1 = d # cs2"
      by (auto split: list.splits)
    note l2 = skip_ws_Cons_length[OF sk2]
    show ?thesis
    proof (cases "d = 0x7D")
      case True
      with "2.prems" sk obj sk2 l1 l2 show ?thesis by auto
    next
      case False
      with "2.prems" sk obj sk2 have "parse_members P fuel [] (d # cs2) = Some (v, rest)"
        by simp
      from "2.IH"(1)[OF sk obj sk2 False this] l1 l2 show ?thesis by simp
    qed
  next
    case arr
    from "2.prems" sk arr obtain d cs2 where sk2: "skip_ws cs1 = d # cs2"
      by (auto split: list.splits)
    note l2 = skip_ws_Cons_length[OF sk2]
    show ?thesis
    proof (cases "d = 0x5D")
      case True
      with "2.prems" sk arr sk2 l1 l2 show ?thesis by auto
    next
      case False
      with "2.prems" sk arr sk2 have "parse_elements P fuel [] (d # cs2) = Some (v, rest)"
        by simp
      from "2.IH"(2)[OF sk arr sk2 False this] l1 l2 show ?thesis by simp
    qed
  next
    case other
    have "length rest \<le> length cs1"
      using "2.prems" sk other
      by (auto split: if_splits simp: js_nonempty
          dest!: parse_string_shorter literal_shorter scan_number_shorter)
    with l1 show ?thesis by simp
  qed
next
  case (3 P acc cs)
  then show ?case by simp
next
  case (4 P fuel acc cs)
  from "4.prems" obtain v1 cs1 where pv: "parse_value P fuel cs = Some (v1, cs1)"
    by (auto split: option.splits)
  from "4.IH"(1)[OF pv] have l1: "length cs1 < length cs" .
  from "4.prems" pv obtain d cs2 where sk: "skip_ws cs1 = d # cs2"
    by (auto split: list.splits)
  note l2 = skip_ws_Cons_length[OF sk]
  show ?case
  proof (cases "d = 0x2C")
    case True
    with "4.prems" pv sk have "parse_elements P fuel (acc @ [v1]) cs2 = Some (v, rest)" by simp
    from "4.IH"(2)[OF pv refl sk True this] l1 l2 show ?thesis by simp
  next
    case False
    with "4.prems" pv sk l1 l2 show ?thesis by (auto split: if_splits)
  qed
next
  case (5 P kvs cs)
  then show ?case by simp
next
  case (6 P fuel kvs cs)
  from "6.prems" obtain q cs1 where sk: "skip_ws cs = q # cs1"
    by (auto split: list.splits)
  from "6.prems" sk have q: "\<not> q \<noteq> 0x22" by (auto split: if_splits)
  from "6.prems" sk q obtain k cs2 where ps: "parse_string cs1 = Some (k, cs2)"
    by (auto split: option.splits)
  from "6.prems" sk q ps obtain colon cs3 where sk2: "skip_ws cs2 = colon # cs3"
    by (auto split: list.splits)
  from "6.prems" sk q ps sk2 have col: "\<not> colon \<noteq> 0x3A" by (auto split: if_splits)
  from "6.prems" sk q ps sk2 col obtain v1 cs4 where pv: "parse_value P fuel cs3 = Some (v1, cs4)"
    by (auto split: option.splits)
  from "6.prems" sk q ps sk2 col pv obtain d cs5 where sk3: "skip_ws cs4 = d # cs5"
    by (auto split: list.splits)
  note l = skip_ws_Cons_length[OF sk] parse_string_shorter[OF ps] skip_ws_Cons_length[OF sk2]
    "6.IH"(1)[OF sk q ps refl sk2 col pv] skip_ws_Cons_length[OF sk3]
  show ?case
  proof (cases "d = 0x2C")
    case True
    with "6.prems" sk q ps sk2 col pv sk3
    have "parse_members P fuel (define_property k v1 kvs) cs5 = Some (v, rest)" by simp
    from "6.IH"(2)[OF sk q ps refl sk2 col pv refl sk3 True this] l show ?thesis by simp
  next
    case False
    with "6.prems" sk q ps sk2 col pv sk3 l show ?thesis by (auto split: if_splits)
  qed
qed

lemma parse_value_Suc_other:
  assumes "skip_ws cs = c # cs1" and "c \<noteq> 0x7B" and "c \<noteq> 0x5B"
  shows "parse_value P (Suc f) cs = parse_value P (Suc g) cs"
  using assms by simp

lemma parse_enough_fuel:
  "parse_value P f' cs = Some (v, rest) \<Longrightarrow> length cs - length rest < f \<Longrightarrow>
     parse_value P f cs = Some (v, rest)"
  "parse_elements P f' acc cs = Some (v, rest) \<Longrightarrow> length cs - length rest < f \<Longrightarrow>
     parse_elements P f acc cs = Some (v, rest)"
  "parse_members P f' kvs cs = Some (v, rest) \<Longrightarrow> length cs - length rest < f \<Longrightarrow>
     parse_members P f kvs cs = Some (v, rest)"
proof (induction P f' cs and P f' acc cs and P f' kvs cs
    arbitrary: f v rest and f v rest and f v rest
    rule: parse_value_parse_elements_parse_members.induct)
  case (1 P cs)
  then show ?case by simp
next
  case (2 P fuel cs)
  note sh = parse_shorter(1)[OF "2.prems"(1)]
  with "2.prems"(2) obtain g where f: "f = Suc g" by (cases f) auto
  from "2.prems"(1) obtain c cs1 where sk: "skip_ws cs = c # cs1"
    by (auto split: list.splits)
  note l1 = skip_ws_Cons_length[OF sk]
  consider (obj) "c = 0x7B" | (arr) "c \<noteq> 0x7B" "c = 0x5B" | (other) "c \<noteq> 0x7B" "c \<noteq> 0x5B"
    by blast
  then show ?case
  proof cases
    case obj
    from "2.prems"(1) sk obj obtain d cs2 where sk2: "skip_ws cs1 = d # cs2"
      by (auto split: list.splits)
    note l2 = skip_ws_Cons_length[OF sk2]
    show ?thesis
    proof (cases "d = 0x7D")
      case True
      with "2.prems"(1) sk obj sk2 show ?thesis unfolding f by simp
    next
      case False
      with "2.prems"(1) sk obj sk2 have pm: "parse_members P fuel [] (d # cs2) = Some (v, rest)"
        by simp
      from parse_shorter(3)[OF pm] "2.prems"(2) l1 l2
      have "length (d # cs2) - length rest < g" unfolding f by simp
      from "2.IH"(1)[OF sk obj sk2 False pm this]
      show ?thesis unfolding f using sk obj sk2 False by simp
    qed
  next
    case arr
    from "2.prems"(1) sk arr obtain d cs2 where sk2: "skip_ws cs1 = d # cs2"
      by (auto split: list.splits)
    note l2 = skip_ws_Cons_length[OF sk2]
    show ?thesis
    proof (cases "d = 0x5D")
      case True
      with "2.prems"(1) sk arr sk2 show ?thesis unfolding f by simp
    next
      case False
      with "2.prems"(1) sk arr sk2 have pe: "parse_elements P fuel [] (d # cs2) = Some (v, rest)"
        by simp
      from parse_shorter(2)[OF pe] "2.prems"(2) l1 l2
      have "length (d # cs2) - length rest < g" unfolding f by simp
      from "2.IH"(2)[OF sk arr sk2 False pe this]
      show ?thesis unfolding f using sk arr sk2 False by simp
    qed
  next
    case other
    show ?thesis
      unfolding f using "2.prems"(1) parse_value_Suc_other[OF sk other, of P g fuel] by simp
  qed
next
  case (3 P acc cs)
  then show ?case by simp
next
  case (4 P fuel acc cs)
  note sh = parse_shorter(2)[OF "4.prems"(1)]
  with "4.prems"(2) obtain g where f: "f = Suc g" by (cases f) auto
  from "4.prems"(1) obtain v1 cs1 where pv: "parse_value P fuel cs = Some (v1, cs1)"
    by (auto split: option.splits)
  note l1 = parse_shorter(1)[OF pv]
  from "4.prems"(1) pv obtain d cs2 where sk: "skip_ws cs1 = d # cs2"
    by (auto split: list.splits)
  note l2 = skip_ws_Cons_length[OF sk]
  have rest_le: "length rest \<le> length cs2"
  proof (cases "d = 0x2C")
    case True
    with "4.prems"(1) pv sk have "parse_elements P fuel (acc @ [v1]) cs2 = Some (v, rest)" by simp
    from parse_shorter(2)[OF this] show ?thesis by simp
  next
    case False
    with "4.prems"(1) pv sk show ?thesis by (auto split: if_splits)
  qed
  have "length cs - length cs1 < g"
    using rest_le l1 l2 "4.prems"(2) unfolding f by simp
  from "4.IH"(1)[OF pv this] have pv': "parse_value P g cs = Some (v1, cs1)" .
  show ?case
  proof (cases "d = 0x2C")
    case True
    with "4.prems"(1) pv sk have pe: "parse_elements P fuel (acc @ [v1]) cs2 = Some (v, rest)"
      by simp
    have "length cs2 - length rest < g"
      using parse_shorter(2)[OF pe] l1 l2 "4.prems"(2) unfolding f by simp
    from "4.IH"(2)[OF pv refl sk True pe this]
    show ?thesis unfolding f using pv' sk True by simp
  next
    case False
    with "4.prems"(1) pv sk show ?thesis unfolding f using pv' by (auto split: if_splits)
  qed
next
  case (5 P kvs cs)
  then show ?case by simp
next
  case (6 P fuel kvs cs)
  note sh = parse_shorter(3)[OF "6.prems"(1)]
  with "6.prems"(2) obtain g where f: "f = Suc g" by (cases f) auto
  from "6.prems"(1) obtain q cs1 where sk: "skip_ws cs = q # cs1"
    by (auto split: list.splits)
  from "6.prems"(1) sk have q: "\<not> q \<noteq> 0x22" by (auto split: if_splits)
  from "6.prems"(1) sk q obtain k cs2 where ps: "parse_string cs1 = Some (k, cs2)"
    by (auto split: option.splits)
  from "6.prems"(1) sk q ps obtain colon cs3 where sk2: "skip_ws cs2 = colon # cs3"
    by (auto split: list.splits)
  from "6.prems"(1) sk q ps sk2 have col: "\<not> colon \<noteq> 0x3A" by (auto split: if_splits)
  from "6.prems"(1) sk q ps sk2 col obtain v1 cs4 where
    pv: "parse_value P fuel cs3 = Some (v1, cs4)"
    by (auto split: option.splits)
  from "6.prems"(1) sk q ps sk2 col pv obtain d cs5 where sk3: "skip_ws cs4 = d # cs5"
    by (auto split: list.splits)
  note l = skip_ws_Cons_length[OF sk] parse_string_shorter[OF ps] skip_ws_Cons_length[OF sk2]
    parse_shorter(1)[OF pv] skip_ws_Cons_length[OF sk3]
  have rest_le: "length rest \<le> length cs5"
  proof (cases "d = 0x2C")
    case True
    with "6.prems"(1) sk q ps sk2 col pv sk3
    have "parse_members P fuel (define_property k v1 kvs) cs5 = Some (v, rest)" by simp
    from parse_shorter(3)[OF this] show ?thesis by simp
  next
    case False
    with "6.prems"(1) sk q ps sk2 col pv sk3 show ?thesis by (auto split: if_splits)
  qed
  have "length cs3 - length cs4 < g"
    using rest_le l "6.prems"(2) unfolding f by simp
  from "6.IH"(1)[OF sk q ps refl sk2 col pv this]
  have pv': "parse_value P g cs3 = Some (v1, cs4)" .
  show ?case
  proof (cases "d = 0x2C")
    case True
    with "6.prems"(1) sk q ps sk2 col pv sk3
    have pm: "parse_members P fuel (define_property k v1 kvs) cs5 = Some (v, rest)" by simp
    have "length cs5 - length rest < g"
      using parse_shorter(3)[OF pm] l "6.prems"(2) unfolding f by simp
    from "6.IH"(2)[OF sk q ps refl sk2 col pv refl sk3 True pm this]
    show ?thesis unfolding f using sk q ps sk2 col pv' sk3 True by simp
  next
    case False
    with "6.prems"(1) sk q ps sk2 col pv sk3 show ?thesis
      unfolding f using pv' by (auto split: if_splits)
  qed
qed

lemma JSON_parse_fuel:
  assumes "parse_value P f text = Some (v, rest)"
  shows "JSON_parse P text = (if skip_ws rest = [] then Inr v else Inl SyntaxError)"
proof -
  have "length text - length rest < Suc (length text)" by simp
  from parse_enough_fuel(1)[OF assms this] show ?thesis by (simp add: JSON_parse_def)
qed

section \<open>The objects JSON.parse builds\<close>

text \<open>
  Defining a property makes it the value read under its key and leaves the others as
  they were. An example of the order: array indices first and ascending, then the other
  keys as created; the repeated key keeps its place, and \<open>01\<close> is no array index.
\<close>

lemma map_of_insert_key:
  "map_of kvs k = None \<Longrightarrow> map_of (insert_key k v kvs) k' = (if k' = k then Some v else map_of kvs k')"
  by (induction kvs) (auto split: if_splits)

lemma map_of_define_property:
  "map_of (define_property k v kvs) k' = (if k' = k then Some v else map_of kvs k')"
  by (cases "map_of kvs k") (simp_all add: define_property_def map_of_insert_key update_conv')

lemma own_prop_define_property:
  "own_prop (JObj (define_property k v kvs)) k' =
     (if k' = k then Some v else own_prop (JObj kvs) k')"
  by (simp add: own_prop_def map_of_define_property)

lemma JSON_parse_key_order:
  \<open>JSON_parse P (js ''{"b":"x","10":"y","2":"z","b":"w","01":"v"}'') =
     Inr (JObj [(js ''2'', JStr (js ''z'')), (js ''10'', JStr (js ''y'')),
                (js ''b'', JStr (js ''w'')), (js ''01'', JStr (js ''v''))])\<close>
  by (simp add: JSON_parse_def js_def skip_ws_def is_json_ws_def define_property_def
      key_before_def array_index_def index_value_def is_digit_def)

section \<open>The formatter\<close>

lemmas format_eval = formatMedicineData_def uses_section_def sideEffects_section_def
  note_section_def effects_lines_def use_line_def and_then_def get_prop_def own_prop_def
  or_default_def ToString_opt_def ToBoolean_def Let_def trim_def is_ws_def

text \<open>
  Claim C6. For the empty object the formatter returns \<open>Unknown medicine\<close>, a blank
  line, \<open>Note:\<close> and on the next line the sentence \<open>This information is for
  educational purposes only. Always consult a qualified healthcare professional.\<close>
  The result is written out in full, line feeds included.
\<close>

theorem formatMedicineData_empty_object:
  "formatMedicineData P (JObj []) =
     Inr (js ''Unknown medicine\<newline>\<newline>Note:\<newline>This information is for educational purposes only. Always consult a qualified healthcare professional.'')"
  by (simp add: format_eval js_def LF_def)

text \<open>
  Claim C7. The round trip: from the text with the labelled fence \<open>extractJson\<close> yields
  the document, the document parses to the object with the one property \<open>name\<close>, and the
  formatter renders the object as \<open>Aspirin\<close>, a blank line, \<open>Note:\<close> and on the next
  line the default disclaimer, written out in full.
\<close>

theorem aspirin_round_trip:
  \<open>extractJson (Some (js ''prefix ```json\<newline>{"name":"Aspirin"}\<newline>```\<newline>suffix'')) =
     Some (js ''{"name":"Aspirin"}'') \<and>
   JSON_parse P (js ''{"name":"Aspirin"}'') = Inr (JObj [(js ''name'', JStr (js ''Aspirin''))]) \<and>
   formatMedicineData P (JObj [(js ''name'', JStr (js ''Aspirin''))]) =
     Inr (js ''Aspirin\<newline>\<newline>Note:\<newline>This information is for educational purposes only. Always consult a qualified healthcare professional.'')\<close>
proof (intro conjI)
  show \<open>extractJson (Some (js ''prefix ```json\<newline>{"name":"Aspirin"}\<newline>```\<newline>suffix'')) =
     Some (js ''{"name":"Aspirin"}'')\<close>
    by (simp add: extractJson_def regex_eval trim_def is_ws_def)
  show \<open>JSON_parse P (js ''{"name":"Aspirin"}'') = Inr (JObj [(js ''name'', JStr (js ''Aspirin''))])\<close>
    by (simp add: JSON_parse_def js_def skip_ws_def is_json_ws_def define_property_def)
  show \<open>formatMedicineData P (JObj [(js ''name'', JStr (js ''Aspirin''))]) =
     Inr (js ''Aspirin\<newline>\<newline>Note:\<newline>This information is for educational purposes only. Always consult a qualified healthcare professional.'')\<close>
    by (simp add: format_eval js_def LF_def)
qed

text \<open>
  Claim C2 says the formatter never fails. It does on a \<open>null\<close> entry of
  \<open>sideEffects\<close>: the entry is not a string, so its \<open>severity\<close> is read, and reading
  a property of \<open>null\<close> throws.
\<close>

theorem formatMedicineData_null_group:
  "formatMedicineData P (JObj [(js ''sideEffects'', JArr [JNull])]) = Inl TypeError"
  by (simp add: format_eval js_def)

text \<open>
  The loop over \<open>uses\<close> tests its entry before reading from it, and skips \<open>null\<close>.
\<close>

lemma formatMedicineData_null_use:
  "formatMedicineData P (JObj [(js ''uses'', JArr [JNull])]) =
     Inr (js ''Unknown medicine\<newline>\<newline>Uses:\<newline>\<newline>Note:\<newline>This information is for educational purposes only. Always consult a qualified healthcare professional.'')"
  by (simp add: format_eval js_def LF_def)

text \<open>What the formatter returns is trimmed.\<close>

lemma trim_fixed:
  assumes "t = [] \<or> (\<not> is_ws (hd t) \<and> \<not> is_ws (last t))"
  shows "trim t = t"
proof (cases t)
  case Nil
  then show ?thesis by (simp add: trim_def)
next
  case (Cons x xs)
  with assms have h: "\<not> is_ws (hd t)" and l: "\<not> is_ws (last t)" by auto
  have 1: "dropWhile is_ws t = t" using Cons h by simp
  have "rev t \<noteq> []" "hd (rev t) = last t" using Cons by (simp_all add: hd_rev)
  with l have 2: "dropWhile is_ws (rev t) = rev t"
    by (metis dropWhile.simps(2) list.collapse)
  show ?thesis by (simp add: trim_def 1 2)
qed

lemma trim_ends: "trim s = [] \<or> (\<not> is_ws (hd (trim s)) \<and> \<not> is_ws (last (trim s)))"
proof (cases "dropWhile is_ws (rev (dropWhile is_ws s)) = []")
  case True
  then show ?thesis by (simp add: trim_def)
next
  case False
  let ?u = "dropWhile is_ws s"
  let ?r = "dropWhile is_ws (rev ?u)"
  from False have u: "?u \<noteq> []" by (cases "?u = []") simp_all
  have "\<not> is_ws (hd ?r)" using False by (rule hd_dropWhile)
  then have l: "\<not> is_ws (last (rev ?r))" using False by (simp add: last_rev)
  have "rev ?u = takeWhile is_ws (rev ?u) @ ?r" by simp
  then have "last (rev ?u) = last ?r" using False by (metis last_appendR)
  then have "last ?r = hd ?u" using u by (simp add: last_rev)
  moreover have "\<not> is_ws (hd ?u)" using u by (rule hd_dropWhile)
  ultimately have "\<not> is_ws (hd (rev ?r))" using False by (simp add: hd_rev)
  with l show ?thesis by (simp add: trim_def)
qed

lemma trim_trim: "trim (trim s) = trim s"
  using trim_ends by (rule trim_fixed)

lemma formatMedicineData_trimmed: "formatMedicineData P data = Inr s \<Longrightarrow> trim s = s"
  by (auto simp: formatMedicineData_def and_then_def trim_trim split: sum.splits)

text \<open>
  Any \<open>null\<close> entry of \<open>sideEffects\<close> makes the formatter throw. Apart from that
  and from \<open>null\<close> data, it returns on every printable value.
\<close>

lemma collect_Inr:
  "(\<And>r. r \<in> set rs \<Longrightarrow> \<exists>x. r = Inr x) \<Longrightarrow> \<exists>xs. collect rs = Inr xs"
proof (induction rs)
  case Nil
  then show ?case by simp
next
  case (Cons r rs)
  then obtain x where "r = Inr x" by auto
  moreover from Cons obtain xs where "collect rs = Inr xs" by auto
  ultimately show ?case by simp
qed

lemma ToString_printable: "printable v \<Longrightarrow> \<exists>s. ToString P v = Inr s"
proof (induction v)
  case (JArr xs)
  have "\<exists>ps. collect (map (\<lambda>x. case x of JNull \<Rightarrow> Inr [] | _ \<Rightarrow> ToString P x) xs) = Inr ps"
  proof (rule collect_Inr)
    fix r assume "r \<in> set (map (\<lambda>x. case x of JNull \<Rightarrow> Inr [] | _ \<Rightarrow> ToString P x) xs)"
    then obtain x where x: "x \<in> set xs" "r = (case x of JNull \<Rightarrow> Inr [] | _ \<Rightarrow> ToString P x)"
      by auto
    from x(1) JArr.prems have "printable x" by (simp add: list_all_iff)
    with JArr.IH x(1) obtain s where "ToString P x = Inr s" by blast
    with x(2) show "\<exists>y. r = Inr y" by (cases x) auto
  qed
  then show ?case by auto
qed auto

lemma printable_prop: "printable v \<Longrightarrow> own_prop v k = Some x \<Longrightarrow> printable x"
  by (cases v) (auto simp: own_prop_def list_all_iff dest!: map_of_SomeD)

lemma ToString_opt_printable:
  "printable v \<Longrightarrow> \<exists>s. ToString_opt P (own_prop v k) = Inr s"
proof (cases "own_prop v k")
  case None
  then show ?thesis by (simp add: ToString_opt_def)
next
  case (Some x)
  assume "printable v"
  from printable_prop[OF this Some] have "printable x" .
  from ToString_printable[OF this] Some show ?thesis by (simp add: ToString_opt_def)
qed

lemma or_default_printable: "printable v \<Longrightarrow> \<exists>s. or_default P (own_prop v k) d = Inr s"
  using ToString_opt_printable[of v P k] by (auto simp: or_default_def)

lemma use_line_printable: "printable u \<Longrightarrow> \<exists>l. use_line P u = Inr l"
proof -
  assume p: "printable u"
  have "\<exists>ps. collect (map (ToString_opt P)
      (filter ToBoolean [own_prop u (js ''condition''), own_prop u (js ''description'')])) = Inr ps"
  proof (rule collect_Inr)
    fix r
    assume "r \<in> set (map (ToString_opt P)
      (filter ToBoolean [own_prop u (js ''condition''), own_prop u (js ''description'')]))"
    then have "r = ToString_opt P (own_prop u (js ''condition'')) \<or>
               r = ToString_opt P (own_prop u (js ''description''))"
      by (auto split: if_splits)
    with ToString_opt_printable[OF p] show "\<exists>x. r = Inr x" by metis
  qed
  then obtain ps where "collect (map (ToString_opt P)
      (filter ToBoolean [own_prop u (js ''condition''), own_prop u (js ''description'')])) = Inr ps"
    by blast
  then show ?thesis unfolding use_line_def and_then_def Let_def by simp
qed

lemma uses_loop_printable:
  "list_all printable us \<Longrightarrow> \<exists>m. uses_loop P us message = Inr m"
proof (induction us arbitrary: message)
  case Nil
  then show ?case by simp
next
  case (Cons u us)
  then have pu: "printable u" and IH: "\<And>m. \<exists>m'. uses_loop P us m = Inr m'" by auto
  from use_line_printable[OF pu] obtain l where l: "use_line P u = Inr l" by blast
  show ?case using IH l by (cases u) auto
qed

lemma effects_loop_printable:
  "list_all printable es \<Longrightarrow> \<exists>m. effects_loop P es message = Inr m"
proof (induction es arbitrary: message)
  case Nil
  then show ?case by simp
next
  case (Cons e es)
  then have "printable e" and IH: "\<And>m. \<exists>m'. effects_loop P es m = Inr m'" by auto
  from ToString_printable[OF this(1)] obtain s where "ToString P e = Inr s" by blast
  with IH show ?case by simp
qed

lemma effects_lines_printable:
  assumes "printable grp"
  shows "\<exists>m. effects_lines P grp message = Inr m"
proof (cases "own_prop grp (js ''effects'')")
  case None
  then show ?thesis by (simp add: effects_lines_def)
next
  case (Some es)
  from printable_prop[OF assms Some] have "printable es" .
  then show ?thesis
    using Some effects_loop_printable by (cases es) (auto simp: effects_lines_def)
qed

lemma sideEffects_loop_printable:
  "list_all printable gs \<Longrightarrow> JNull \<notin> set gs \<Longrightarrow> \<exists>m. sideEffects_loop P gs message = Inr m"
proof (induction gs arbitrary: message)
  case Nil
  then show ?case by simp
next
  case (Cons grp gs)
  then have pg: "printable grp" and nn: "grp \<noteq> JNull"
    and IH: "\<And>m. \<exists>m'. sideEffects_loop P gs m = Inr m'" by auto
  from nn have g: "get_prop grp (js ''severity'') = Inr (own_prop grp (js ''severity''))"
    by (cases grp) (simp_all add: get_prop_def)
  from or_default_printable[OF pg] obtain sev where
    sev: "or_default P (own_prop grp (js ''severity'')) (js ''Severity not specified'') = Inr sev"
    by blast
  from effects_lines_printable[OF pg] obtain m1 where
    m1: "effects_lines P grp (message @ js ''- '' @ sev @ js '':'' @ [LF]) = Inr m1" by blast
  show ?case using IH g sev m1 by (cases grp) (auto simp: and_then_def)
qed

lemma sideEffects_loop_null:
  "JNull \<in> set gs \<Longrightarrow> \<exists>e. sideEffects_loop P gs message = Inl e"
proof (induction gs arbitrary: message)
  case Nil
  then show ?case by simp
next
  case (Cons grp gs)
  show ?case
  proof (cases "grp = JNull")
    case True
    then show ?thesis by (simp add: get_prop_def and_then_def)
  next
    case False
    with Cons have IH: "\<And>m. \<exists>e. sideEffects_loop P gs m = Inl e" by auto
    show ?thesis
    proof (cases grp)
      case (JStr s)
      then show ?thesis using IH by simp
    next
      case JNull
      with False show ?thesis by simp
    qed (use IH in \<open>auto split: sum.splits\<close>)
  qed
qed

lemma formatMedicineData_total:
  assumes "data \<noteq> JNull" and "printable data"
    and "\<And>gs. own_prop data (js ''sideEffects'') = Some (JArr gs) \<Longrightarrow> JNull \<notin> set gs"
  shows "\<exists>s. formatMedicineData P data = Inr s"
proof -
  from assms(1) have g: "get_prop data (js ''name'') = Inr (own_prop data (js ''name''))"
    by (cases data) (simp_all add: get_prop_def)
  from or_default_printable[OF assms(2)] obtain title where
    t: "or_default P (own_prop data (js ''name'')) (js ''Unknown medicine'') = Inr title" by blast
  have "\<exists>m. uses_section P data (title @ [LF, LF]) = Inr m"
  proof (cases "own_prop data (js ''uses'')")
    case None
    then show ?thesis by (simp add: uses_section_def)
  next
    case (Some us)
    from printable_prop[OF assms(2) Some] have p: "printable us" .
    show ?thesis
    proof (cases us)
      case (JArr xs)
      with p have "list_all printable xs" by simp
      from uses_loop_printable[OF this] obtain m where
        "uses_loop P xs ((title @ [LF, LF]) @ js ''Uses:'' @ [LF]) = Inr m" by blast
      with Some JArr show ?thesis by (simp add: uses_section_def and_then_def)
    qed (use Some in \<open>simp_all add: uses_section_def\<close>)
  qed
  then obtain m1 where m1: "uses_section P data (title @ [LF, LF]) = Inr m1" by blast
  have "\<exists>m. sideEffects_section P data m1 = Inr m"
  proof (cases "own_prop data (js ''sideEffects'')")
    case None
    then show ?thesis by (simp add: sideEffects_section_def)
  next
    case (Some se)
    from printable_prop[OF assms(2) Some] have p: "printable se" .
    show ?thesis
    proof (cases se)
      case (JArr gs)
      with p have "list_all printable gs" by simp
      moreover from assms(3) Some JArr have "JNull \<notin> set gs" by simp
      ultimately show ?thesis
        using Some JArr sideEffects_loop_printable by (auto simp: sideEffects_section_def)
    qed (use Some in \<open>simp_all add: sideEffects_section_def\<close>)
  qed
  then obtain m2 where m2: "sideEffects_section P data m1 = Inr m2" by blast
  from ToString_opt_printable[OF assms(2)] obtain s where
    "ToString_opt P (own_prop data (js ''note'')) = Inr s" by blast
  then have "\<exists>m. note_section P data m2 = Inr m"
    by (simp add: note_section_def Let_def and_then_def)
  then obtain m3 where "note_section P data m2 = Inr m3" by blast
  with g t m1 m2 show ?thesis by (simp add: formatMedicineData_def and_then_def)
qed

lemma formatMedicineData_null_entry:
  assumes "own_prop data (js ''sideEffects'') = Some (JArr gs)" and "JNull \<in> set gs"
  shows "\<exists>e. formatMedicineData P data = Inl e"
proof -
  from assms(2) have ne: "gs \<noteq> []" by auto
  have se: "\<exists>e. sideEffects_section P data m = Inl e" for m
    using assms(1) ne sideEffects_loop_null[OF assms(2)] by (simp add: sideEffects_section_def)
  have "\<exists>e. and_then (sideEffects_section P data m) f = Inl e" for m
    and f :: "jsstring \<Rightarrow> js_error + jsstring"
  proof -
    from se[of m] obtain e where "sideEffects_section P data m = Inl e" by blast
    then show ?thesis by (simp add: and_then_def)
  qed
  then show ?thesis
    unfolding formatMedicineData_def
    by (auto simp: and_then_def split: sum.splits)
qed

section \<open>The handler\<close>

lemma query_of_body: "own_prop (body_or_empty (Some b)) k = own_prop b k"
  by (cases b) (simp_all add: body_or_empty_def own_prop_def)

lemma query_of_no_body: "own_prop (body_or_empty None) k = None"
  by (simp add: body_or_empty_def own_prop_def)

text \<open>
  Claim C8. When the request has no query the handler responds 400 with the error
  \<open>query is required\<close>, and the upstream capability is not called.
\<close>

theorem api_ai_missing_query:
  assumes "missing_query req_body"
  shows "response (api_ai P U req_body) = bad_request \<and> calls (api_ai P U req_body) = []"
proof -
  have "own_prop (body_or_empty req_body) (js ''query'') = None"
    using assms by (cases req_body) (simp_all add: missing_query_def query_of_body query_of_no_body)
  then show ?thesis by (simp add: api_ai_def bad_request_def ToBoolean_def)
qed

text \<open>Two instances: no body at all, and a body without the property.\<close>

theorem api_ai_missing_query_witness:
  "missing_query (None :: int json option) \<and>
   response (api_ai sample_platform failing_upstream None) = bad_request \<and>
   calls (api_ai sample_platform failing_upstream None) = [] \<and>
   missing_query (Some (JObj [(js ''name'', JStr (js ''aspirin'') :: int json)])) \<and>
   response (api_ai sample_platform failing_upstream
     (Some (JObj [(js ''name'', JStr (js ''aspirin''))]))) = bad_request \<and>
   calls (api_ai sample_platform failing_upstream
     (Some (JObj [(js ''name'', JStr (js ''aspirin''))]))) = []"
proof -
  have a: "missing_query (None :: int json option)" by (simp add: missing_query_def)
  have b: "missing_query (Some (JObj [(js ''name'', JStr (js ''aspirin'') :: int json)]))"
    by (simp add: missing_query_def own_prop_def js_def)
  from api_ai_missing_query [OF a, of sample_platform failing_upstream]
    api_ai_missing_query [OF b, of sample_platform failing_upstream] a b
  show ?thesis by blast
qed

text \<open>
  Claim C9. When the upstream call fails, the handler responds 500 with the fixed error
  \<open>Gemini AI request failed\<close>, whatever the failure was; the failure itself goes to
  the console only. The call is made when the query is truthy.
\<close>

theorem api_ai_upstream_failure:
  assumes "ToBoolean (own_prop b (js ''query''))"
    and "upstream_fails P U (own_prop b (js ''query'')) err"
  shows "response (api_ai P U (Some b)) = server_error \<and>
         console (api_ai P U (Some b)) = [Error (js ''Gemini Error:'') (Upstream err)]"
  using assms
  by (auto simp: api_ai_def Let_def query_of_body upstream_fails_def
      split: sum.splits prod.splits)

text \<open>
  Two instances: the completion is rejected with a message of its own, and the model
  cannot be obtained.
\<close>

theorem api_ai_upstream_failure_witness:
  "ToBoolean (own_prop (JObj [(js ''query'', JStr (js ''aspirin'') :: int json)]) (js ''query'')) \<and>
   upstream_fails sample_platform failing_upstream
     (own_prop (JObj [(js ''query'', JStr (js ''aspirin''))]) (js ''query''))
     (js ''quota exceeded'') \<and>
   response (api_ai sample_platform failing_upstream
     (Some (JObj [(js ''query'', JStr (js ''aspirin''))]))) =
     \<lparr>status = 500, body = Error_body (js ''Gemini AI request failed'')\<rparr> \<and>
   console (api_ai sample_platform failing_upstream
     (Some (JObj [(js ''query'', JStr (js ''aspirin''))]))) =
     [Error (js ''Gemini Error:'') (Upstream (js ''quota exceeded''))] \<and>
   upstream_fails sample_platform broken_upstream
     (own_prop (JObj [(js ''query'', JStr (js ''aspirin''))]) (js ''query''))
     (js ''invalid API key'') \<and>
   response (api_ai sample_platform broken_upstream
     (Some (JObj [(js ''query'', JStr (js ''aspirin''))]))) =
     \<lparr>status = 500, body = Error_body (js ''Gemini AI request failed'')\<rparr> \<and>
   console (api_ai sample_platform broken_upstream
     (Some (JObj [(js ''query'', JStr (js ''aspirin''))]))) =
     [Error (js ''Gemini Error:'') (Upstream (js ''invalid API key''))]"
proof -
  have q: "ToBoolean (own_prop (JObj [(js ''query'', JStr (js ''aspirin'') :: int json)])
      (js ''query''))"
    by (simp add: own_prop_def ToBoolean_def js_def)
  have u: "upstream_fails sample_platform failing_upstream
     (own_prop (JObj [(js ''query'', JStr (js ''aspirin''))]) (js ''query''))
     (js ''quota exceeded'')"
    by (simp add: upstream_fails_def failing_upstream_def prompt_def and_then_def
        ToString_opt_def own_prop_def)
  have v: "upstream_fails sample_platform broken_upstream
     (own_prop (JObj [(js ''query'', JStr (js ''aspirin''))]) (js ''query''))
     (js ''invalid API key'')"
    by (simp add: upstream_fails_def broken_upstream_def)
  from api_ai_upstream_failure [OF q u] api_ai_upstream_failure [OF q v] q u v
  show ?thesis unfolding server_error_def by blast
qed

text \<open>
  Claim C10. When the query is present but is the empty string, zero, \<open>false\<close> or
  \<open>null\<close>, the handler responds 400 with the error \<open>query is required\<close> and does not
  call the upstream capability: the outcome is that of a request without a body.
\<close>

theorem api_ai_falsy_query:
  assumes "own_prop b (js ''query'') = Some q"
    and "q = JStr [] \<or> q = JNum 0 \<or> q = JBool False \<or> q = JNull"
  shows "response (api_ai P U (Some b)) = bad_request \<and>
         calls (api_ai P U (Some b)) = [] \<and>
         api_ai P U (Some b) = api_ai P U None"
proof -
  have "\<not> ToBoolean (own_prop b (js ''query''))"
    using assms by (auto simp: ToBoolean_def)
  then show ?thesis
    by (simp add: api_ai_def Let_def bad_request_def query_of_body query_of_no_body ToBoolean_def)
qed

text \<open>The four falsy values.\<close>

theorem api_ai_falsy_query_witness:
  "response (api_ai sample_platform failing_upstream (Some (JObj [(js ''query'', JStr [])]))) =
     bad_request \<and>
   calls (api_ai sample_platform failing_upstream (Some (JObj [(js ''query'', JNum 0)]))) = [] \<and>
   api_ai sample_platform failing_upstream (Some (JObj [(js ''query'', JBool False)])) =
     api_ai sample_platform failing_upstream None \<and>
   response (api_ai sample_platform failing_upstream (Some (JObj [(js ''query'', JNull)]))) =
     bad_request"
proof -
  have p: "own_prop (JObj [(js ''query'', q)]) (js ''query'') = Some q" for q :: "int json"
    by (simp add: own_prop_def)
  have d: "q = JStr [] \<or> q = JNum 0 \<or> q = JBool False \<or> q = JNull"
    if "q \<in> {JStr [], JNum 0, JBool False, JNull}" for q :: "int json"
    using that by auto
  from api_ai_falsy_query [OF p d, of "JStr []" sample_platform failing_upstream]
    api_ai_falsy_query [OF p d, of "JNum 0" sample_platform failing_upstream]
    api_ai_falsy_query [OF p d, of "JBool False" sample_platform failing_upstream]
    api_ai_falsy_query [OF p d, of "JNull" sample_platform failing_upstream]
  show ?thesis by blast
qed

text \<open>
  After a completion the handler answers with what the inner \<open>try\<close> block leaves.
\<close>

lemma prompt_of_string: "\<exists>p. prompt P (Some (JStr s)) = Inr p"
  by (simp add: prompt_def and_then_def ToString_opt_def)

lemma api_ai_respond:
  assumes "ToBoolean (own_prop b (js ''query''))"
    and "getGenerativeModel U = None"
    and "prompt P (own_prop b (js ''query'')) = Inr p"
    and "generateContent U p = Inr text"
  shows "(response (api_ai P U (Some b)), console (api_ai P U (Some b))) =
           respond P (rawText text)"
    and "calls (api_ai P U (Some b)) = [Get_model, Generate_content p]"
  using assms by (simp_all add: api_ai_def Let_def query_of_body split: prod.splits)

text \<open>
  Claim C3 says that after a successful parse the response carries the formatter's text.
  When the upstream text is an object with a \<open>null\<close> entry in \<open>sideEffects\<close>, the parse
  succeeds and the formatter throws inside the same \<open>try\<close> block: the response keeps the
  raw text, next to the parsed object.
\<close>

theorem api_ai_formatter_failure:
  \<open>response (api_ai P (answering_upstream (js ''{"sideEffects":[null]}''))
      (Some (JObj [(js ''query'', JStr (js ''aspirin''))]))) =
   \<lparr>status = 200,
    body = Result_body (js ''{"sideEffects":[null]}'')
             (JObj [(js ''sideEffects'', JArr [JNull])])\<rparr>\<close>
proof -
  have r: \<open>rawText (Some (js ''{"sideEffects":[null]}'')) = js ''{"sideEffects":[null]}''\<close>
    by (simp add: rawText_def)
  have e: \<open>jsonString (js ''{"sideEffects":[null]}'') = js ''{"sideEffects":[null]}''\<close>
    by (simp add: jsonString_def extractJson_def regex_eval trim_def is_ws_def
        slice_js_def Let_def)
  have p: \<open>JSON_parse P (js ''{"sideEffects":[null]}'') =
      Inr (JObj [(js ''sideEffects'', JArr [JNull])])\<close>
    by (simp add: JSON_parse_def js_def skip_ws_def is_json_ws_def literal_def same_unit_def
        define_property_def)
  have f: "formatMedicineData P (JObj [(js ''sideEffects'', JArr [JNull])]) = Inl TypeError"
    by (simp add: format_eval js_def)
  have "respond P (js ''{\"sideEffects\":[null]}'') =
      (\<lparr>status = 200, body = Result_body (js ''{\"sideEffects\":[null]}'')
         (JObj [(js ''sideEffects'', JArr [JNull])])\<rparr>, [parse_warning :: jsstring console_entry])"
    by (simp add: respond_def e p f)
  moreover have q: "ToBoolean (own_prop (JObj [(js ''query'', JStr (js ''aspirin''))]) (js ''query'')
      :: 'a json option)"
    by (simp add: own_prop_def ToBoolean_def js_def)
  moreover obtain pr where "prompt P (own_prop (JObj [(js ''query'', JStr (js ''aspirin''))])
      (js ''query'')) = Inr pr"
    using prompt_of_string[of P "js ''aspirin''"] by (auto simp: own_prop_def)
  ultimately show ?thesis
    by (simp add: api_ai_def Let_def query_of_body answering_upstream_def r)
qed

text \<open>
  The three outcomes of the inner \<open>try\<close> block: the text does not parse; it parses and
  the formatter returns; it parses and the formatter throws.
\<close>

lemma respond_parse_failure:
  "JSON_parse P (jsonString raw) = Inl e \<Longrightarrow>
     fst (respond P raw) = \<lparr>status = 200, body = Result_body raw JNull\<rparr>"
  by (simp add: respond_def)

lemma respond_formatted:
  "JSON_parse P (jsonString raw) = Inr parsed \<Longrightarrow>
   formatMedicineData P parsed = Inr formattedText \<Longrightarrow>
     fst (respond P raw) = \<lparr>status = 200, body = Result_body formattedText parsed\<rparr>"
  by (simp add: respond_def)

lemma respond_formatter_throws:
  "JSON_parse P (jsonString raw) = Inr parsed \<Longrightarrow>
   formatMedicineData P parsed = Inl e \<Longrightarrow>
     fst (respond P raw) = \<lparr>status = 200, body = Result_body raw parsed\<rparr>"
  by (simp add: respond_def)

text \<open>
  A query that cannot be converted to text fails the request before the completion is
  asked for. Every response is a 200, a 400 or a 500, every 500 carries the fixed
  error, and the completion is asked for at most once.
\<close>

lemma api_ai_prompt_failure:
  assumes "ToBoolean (own_prop b (js ''query''))"
    and "getGenerativeModel U = None"
    and "prompt P (own_prop b (js ''query'')) = Inl e"
  shows "response (api_ai P U (Some b)) = server_error"
    and "calls (api_ai P U (Some b)) = [Get_model]"
  using assms by (simp_all add: api_ai_def Let_def query_of_body)

lemma api_ai_status:
  "status (response (api_ai P U req_body)) \<in> {200, 400, 500}"
  by (auto simp: api_ai_def Let_def respond_def server_error_def
      split: sum.splits option.splits prod.splits)

lemma api_ai_server_error:
  "status (response (api_ai P U req_body)) = 500 \<Longrightarrow>
     response (api_ai P U req_body) = server_error"
  by (auto simp: api_ai_def Let_def respond_def server_error_def
      split: sum.splits option.splits if_splits prod.splits)

lemma api_ai_calls_once:
  "length (filter (\<lambda>c. c \<noteq> Get_model) (calls (api_ai P U req_body))) \<le> 1"
  by (auto simp: api_ai_def Let_def split: sum.splits option.splits prod.splits)

end
